theory Spec2Isabelle
  imports Main
begin

section \<open>The querier of the Tiny Search Engine (querier.c)\<close>

text \<open>
  The querier reads one query per line, splits it into words, checks the placement of the
  operators \<open>and\<close> and \<open>or\<close>, evaluates the query against an inverted index and
  prints the matching documents ranked by score. This theory embeds the functions of
  \<^verbatim>\<open>querier.c\<close> and proves properties of them.
\<close>

subsection \<open>Characters (ctype.h, "C" locale)\<close>

text \<open>
  The program never calls \<^verbatim>\<open>setlocale\<close>, so \<^verbatim>\<open>isalpha\<close>, \<^verbatim>\<open>isspace\<close> and
  \<^verbatim>\<open>tolower\<close> are those of the "C" locale. Every use casts the byte to
  \<^verbatim>\<open>unsigned char\<close> first; \<^typ>\<open>char\<close> is a byte read as \<open>0..255\<close>.
\<close>

definition isalpha :: "char \<Rightarrow> bool" where
  "isalpha c = (let n = (of_char c :: nat) in (65 \<le> n \<and> n \<le> 90) \<or> (97 \<le> n \<and> n \<le> 122))"

definition isspace :: "char \<Rightarrow> bool" where
  "isspace c = (let n = (of_char c :: nat) in n = 32 \<or> (9 \<le> n \<and> n \<le> 13))"

definition tolower :: "char \<Rightarrow> char" where
  "tolower c = (let n = (of_char c :: nat) in if 65 \<le> n \<and> n \<le> 90 then char_of (n + 32) else c)"

definition NUL :: char where
  "NUL = CHR 0x00"

text \<open>The C string that starts at offset \<open>p\<close> of a buffer: the bytes before the next NUL.\<close>

definition cstr :: "char list \<Rightarrow> nat \<Rightarrow> string" where
  "cstr buf p = takeWhile (\<lambda>c. c \<noteq> NUL) (drop p buf)"

subsection \<open>Memory\<close>

text \<open>
  \<^verbatim>\<open>mem_malloc\<close> and \<^verbatim>\<open>counters_new\<close> return NULL when memory runs out, and the
  source tests for it in places. The allocator is a budget: \<open>Remaining n\<close> serves \<open>n\<close>
  more requests and refuses the rest, \<open>Unlimited\<close> never refuses.
\<close>

datatype budget = Unlimited | Remaining nat

fun spend :: "budget \<Rightarrow> budget option" where
  "spend Unlimited = Some Unlimited"
| "spend (Remaining 0) = None"
| "spend (Remaining (Suc n)) = Some (Remaining n)"

text \<open>
  A counter set (\<^verbatim>\<open>counters_t\<close> of libcs50) is its list of nodes \<open>(key, count)\<close> in the
  order in which \<^verbatim>\<open>counters_iterate\<close> visits them. Counter sets live in the store at
  addresses; \<open>fresh\<close> is the next address that \<^verbatim>\<open>counters_new\<close> hands out. A pointer is
  \<open>Some\<close> address or \<open>None\<close> for NULL.
\<close>

type_synonym counters = "(int \<times> int) list"

record heap =
  cells :: "nat \<Rightarrow> counters option"
  fresh :: nat
  budget :: budget

definition mem_malloc :: "heap \<Rightarrow> bool \<times> heap" where
  "mem_malloc h =
     (case spend (budget h) of
        None \<Rightarrow> (False, h)
      | Some b \<Rightarrow> (True, h\<lparr>budget := b\<rparr>))"

subsection \<open>Arithmetic of int\<close>



definition c_int :: "int \<Rightarrow> int" where
  "c_int x = (x + 2147483648) mod 4294967296 - 2147483648"

subsection \<open>Diagnostics and results\<close>

text \<open>
  Each message the program writes to stderr is a constructor. A function that may call
  \<^verbatim>\<open>exit(2)\<close> returns \<open>Exited 2\<close> there, and \<open>Overrun\<close> where it stores outside
  an array it allocated (undefined behaviour in C).
\<close>

datatype diag =
    BadCharacter char
  | CannotBeFirst string
  | CannotBeLast string
  | CannotBeAdjacent string string
  | NullParameter string

datatype 'a result = Exited int | Overrun | Returned 'a

subsection \<open>Operators and token validation\<close>

text \<open>\<^verbatim>\<open>is_operator\<close>: a NULL word is not an operator.\<close>

fun is_operator :: "string option \<Rightarrow> bool" where
  "is_operator None = False"
| "is_operator (Some word) = (word = ''and'' \<or> word = ''or'')"

text \<open>The loop \<^verbatim>\<open>for (int i = 1; i < nwords; i++)\<close> of \<^verbatim>\<open>validate_tokens\<close>.\<close>

function adjacent_loop :: "string list \<Rightarrow> nat \<Rightarrow> diag option" where
  "adjacent_loop words i =
     (if i < length words then
        (if is_operator (Some (words ! (i - 1))) \<and> is_operator (Some (words ! i))
         then Some (CannotBeAdjacent (words ! (i - 1)) (words ! i))
         else adjacent_loop words (i + 1))
      else None)"
  by pat_completeness auto
termination
  by (relation "measure (\<lambda>(words, i). length words - i)") auto

declare adjacent_loop.simps [simp del]

text \<open>
  \<^verbatim>\<open>validate_tokens(words, nwords)\<close>: the array and its length are one list, a NULL
  array is \<open>None\<close>. The result is the diagnostic printed (\<^verbatim>\<open>return false\<close>) or
  \<open>None\<close> (\<^verbatim>\<open>return true\<close>).
\<close>

definition validate_tokens :: "string list option \<Rightarrow> diag option" where
  "validate_tokens words_opt =
     (case words_opt of
        None \<Rightarrow> Some (NullParameter ''validate_tokens'')
      | Some words \<Rightarrow>
          (if length words = 0 then None
           else if is_operator (Some (words ! 0)) then Some (CannotBeFirst (words ! 0))
           else if is_operator (Some (words ! (length words - 1)))
             then Some (CannotBeLast (words ! (length words - 1)))
           else adjacent_loop words 1))"

subsection \<open>Tokenization\<close>

text \<open>
  First pass of \<^verbatim>\<open>tokenize_and_validate\<close>: lowercase every letter in place and stop at
  the first byte that is neither a letter nor white space.
\<close>

function first_pass :: "nat \<Rightarrow> nat \<Rightarrow> char list \<Rightarrow> char + char list" where
  "first_pass len i line =
     (if i < len then
        (let c = line ! i in
         if isalpha c then first_pass len (i + 1) (line[i := tolower c])
         else if \<not> isspace c then Inl c
         else first_pass len (i + 1) line)
      else Inr line)"
  by pat_completeness auto
termination
  by (relation "measure (\<lambda>(len, i, line). len - i)") auto

declare first_pass.simps [simp del]

text \<open>The two inner loops of the second pass.\<close>

function skip_nonalpha :: "nat \<Rightarrow> nat \<Rightarrow> char list \<Rightarrow> nat" where
  "skip_nonalpha len i line =
     (if i < len \<and> \<not> isalpha (line ! i) then skip_nonalpha len (i + 1) line else i)"
  by pat_completeness auto
termination
  by (relation "measure (\<lambda>(len, i, line). len - i)") auto

declare skip_nonalpha.simps [simp del]

function consume_alpha :: "nat \<Rightarrow> nat \<Rightarrow> char list \<Rightarrow> nat" where
  "consume_alpha len i line =
     (if i < len \<and> isalpha (line ! i) then consume_alpha len (i + 1) line else i)"
  by pat_completeness auto
termination
  by (relation "measure (\<lambda>(len, i, line). len - i)") auto

declare consume_alpha.simps [simp del]

lemma skip_nonalpha_ge: "i \<le> skip_nonalpha len i line"
proof (induction len i line rule: skip_nonalpha.induct)
  case (1 len i line)
  then show ?case
    by (subst skip_nonalpha.simps) auto
qed

lemma consume_alpha_ge: "i \<le> consume_alpha len i line"
proof (induction len i line rule: consume_alpha.induct)
  case (1 len i line)
  then show ?case
    by (subst consume_alpha.simps) auto
qed

lemma consume_alpha_gt:
  "i < len \<Longrightarrow> isalpha (line ! i) \<Longrightarrow> i < consume_alpha len i line"
  using consume_alpha_ge [of "i + 1" len line]
  by (subst consume_alpha.simps) simp

lemma skip_nonalpha_stops:
  "skip_nonalpha len i line < len \<Longrightarrow> isalpha (line ! skip_nonalpha len i line)"
proof (induction len i line rule: skip_nonalpha.induct)
  case (1 len i line)
  show ?case
  proof (cases "i < len \<and> \<not> isalpha (line ! i)")
    case True
    then have eq: "skip_nonalpha len i line = skip_nonalpha len (i + 1) line"
      by (subst skip_nonalpha.simps) simp
    from "1.IH" [OF True] "1.prems" show ?thesis
      unfolding eq by simp
  next
    case False
    then have eq: "skip_nonalpha len i line = i"
      by (subst skip_nonalpha.simps) auto
    from False "1.prems" show ?thesis
      unfolding eq by simp
  qed
qed

text \<open>
  The outer loop of the second pass. \<open>words\<close> is the array of \<open>cap\<close> slots that was
  allocated for the tokens, each token being the offset of its first letter in the line
  buffer. The source stores \<^verbatim>\<open>words[count]\<close> without a bound check; a store outside
  the allocation is undefined behaviour in C and is \<open>None\<close> here.
\<close>

function token_loop ::
  "nat \<Rightarrow> nat \<Rightarrow> nat \<Rightarrow> nat \<Rightarrow> char list \<Rightarrow> nat list \<Rightarrow> (char list \<times> nat list \<times> nat) option" where
  "token_loop cap len i count line words =
     (if i < len then
        (let i1 = skip_nonalpha len i line in
         if i1 \<ge> len then Some (line, words, count)
         else
           (let start = i1;
                i2 = consume_alpha len i1 line;
                end = i2;
                line' = line[end := NUL]
            in if count < cap
               then token_loop cap len i2 (count + 1) line' (words[count := start])
               else None))
      else Some (line, words, count))"
  by pat_completeness auto
termination
proof (relation "measure (\<lambda>(cap, len, i, count, line, words). len - i)", goal_cases)
  case 1
  then show ?case by simp
next
  case (2 cap len i count line words i1 start i2 "end" line')
  have "i \<le> i1"
    using 2 skip_nonalpha_ge by simp
  moreover have "i1 < i2"
    using 2 skip_nonalpha_stops [of len i line] consume_alpha_gt [of i1 len line] by simp
  ultimately show ?case
    using 2 by simp
qed

declare token_loop.simps [simp del]

text \<open>
  \<^verbatim>\<open>tokenize_and_validate(line, &words, &nwords)\<close>. \<open>line\<close> is the string in the
  buffer (the bytes before its terminating NUL), so \<^verbatim>\<open>strlen(line)\<close> is its length and
  the buffer is \<open>line @ [NUL]\<close>. The record holds the return value, what the call leaves
  in \<^verbatim>\<open>*words_out\<close> and \<^verbatim>\<open>*nwords_out\<close> (the caller initialised them to NULL and
  0), and the message printed. The words are the C strings at the stored offsets.
\<close>

record tokenized =
  ok :: bool
  words_out :: "string list option"
  nwords_out :: nat
  message :: "diag option"

definition tokenize_and_validate :: "heap \<Rightarrow> string option \<Rightarrow> (tokenized \<times> heap) result" where
  "tokenize_and_validate h line_opt =
     (case line_opt of
        None \<Rightarrow>
          Returned (\<lparr>ok = False, words_out = None, nwords_out = 0,
                      message = Some (NullParameter ''tokenize_and_validate'')\<rparr>, h)
      | Some s \<Rightarrow>
          (let len = length s in
           case first_pass len 0 (s @ [NUL]) of
             Inl c \<Rightarrow>
               Returned (\<lparr>ok = False, words_out = None, nwords_out = 0,
                           message = Some (BadCharacter c)\<rparr>, h)
           | Inr line \<Rightarrow>
               (case mem_malloc h of
                  (False, h') \<Rightarrow> Exited 2
                | (True, h') \<Rightarrow>
                    (case token_loop (len div 2 + 1) len 0 0 line (replicate (len div 2 + 1) 0) of
                       None \<Rightarrow> Overrun
                     | Some (line', words, count) \<Rightarrow>
                         (let strs = map (cstr line') (take count words) in
                          case validate_tokens (Some strs) of
                            Some d \<Rightarrow>
                              Returned (\<lparr>ok = False, words_out = Some strs, nwords_out = count,
                                          message = Some d\<rparr>, h')
                          | None \<Rightarrow>
                              Returned (\<lparr>ok = True, words_out = Some strs, nwords_out = count,
                                          message = None\<rparr>, h'))))))"

subsection \<open>Counter sets (libcs50) and the index\<close>

text \<open>
  The library's functions, from their interface: \<^verbatim>\<open>counters_new\<close> gives an empty set or
  NULL when memory is exhausted; \<^verbatim>\<open>counters_get\<close> gives the count of a key, 0 when the
  set is NULL or the key unknown; \<^verbatim>\<open>counters_set\<close> does nothing when the set is NULL,
  when the key or the count is negative, or when the node it needs cannot be allocated,
  and otherwise updates the key's node or adds a node at the end; \<^verbatim>\<open>counters_delete\<close>
  frees the set. An address that holds no counter set is treated like NULL.
\<close>

definition counters_new :: "heap \<Rightarrow> nat option \<times> heap" where
  "counters_new h =
     (case spend (budget h) of
        None \<Rightarrow> (None, h)
      | Some b \<Rightarrow>
          (Some (fresh h),
           h\<lparr>cells := (cells h)(fresh h \<mapsto> []), fresh := fresh h + 1, budget := b\<rparr>))"

fun nodes_get :: "counters \<Rightarrow> int \<Rightarrow> int" where
  "nodes_get [] key = 0"
| "nodes_get ((k, c) # ns) key = (if k = key then c else nodes_get ns key)"

fun nodes_update :: "counters \<Rightarrow> int \<Rightarrow> int \<Rightarrow> counters" where
  "nodes_update [] key count = []"
| "nodes_update ((k, c) # ns) key count =
     (if k = key then (k, count) # ns else (k, c) # nodes_update ns key count)"

definition counters_get :: "heap \<Rightarrow> nat option \<Rightarrow> int \<Rightarrow> int" where
  "counters_get h ctrs key =
     (case ctrs of
        None \<Rightarrow> 0
      | Some a \<Rightarrow> (case cells h a of None \<Rightarrow> 0 | Some ns \<Rightarrow> nodes_get ns key))"

definition counters_set :: "heap \<Rightarrow> nat option \<Rightarrow> int \<Rightarrow> int \<Rightarrow> heap" where
  "counters_set h ctrs key count =
     (case ctrs of
        None \<Rightarrow> h
      | Some a \<Rightarrow>
          (if key < 0 \<or> count < 0 then h
           else
             (case cells h a of
                None \<Rightarrow> h
              | Some ns \<Rightarrow>
                  (if key \<in> set (map fst ns)
                   then h\<lparr>cells := (cells h)(a \<mapsto> nodes_update ns key count)\<rparr>
                   else
                     (case spend (budget h) of
                        None \<Rightarrow> h
                      | Some b \<Rightarrow>
                          h\<lparr>cells := (cells h)(a \<mapsto> ns @ [(key, count)]), budget := b\<rparr>)))))"

definition counters_delete :: "heap \<Rightarrow> nat option \<Rightarrow> heap" where
  "counters_delete h ctrs =
     (case ctrs of
        None \<Rightarrow> h
      | Some a \<Rightarrow> h\<lparr>cells := (cells h)(a := None)\<rparr>)"

text \<open>
  \<^verbatim>\<open>counters_iterate(ctrs, arg, itemfunc)\<close> calls \<^verbatim>\<open>itemfunc(arg, key, count)\<close> once
  for each node of the set, with the count the node holds when it is reached. The item
  function may change the store and the object \<open>arg\<close> points at, so it takes both and
  returns both. The nodes visited are those the set has when the iteration starts: no item
  function of this program adds a node to the set being iterated.
\<close>

fun iterate_nodes ::
  "nat option \<Rightarrow> (heap \<Rightarrow> 'a \<Rightarrow> int \<Rightarrow> int \<Rightarrow> heap \<times> 'a) \<Rightarrow> int list \<Rightarrow> heap \<Rightarrow> 'a \<Rightarrow> heap \<times> 'a" where
  "iterate_nodes ctrs itemfunc [] h arg = (h, arg)"
| "iterate_nodes ctrs itemfunc (key # keys) h arg =
     (case itemfunc h arg key (counters_get h ctrs key) of
        (h', arg') \<Rightarrow> iterate_nodes ctrs itemfunc keys h' arg')"

definition counters_iterate ::
  "heap \<Rightarrow> nat option \<Rightarrow> 'a \<Rightarrow> (heap \<Rightarrow> 'a \<Rightarrow> int \<Rightarrow> int \<Rightarrow> heap \<times> 'a) \<Rightarrow> heap \<times> 'a" where
  "counters_iterate h ctrs arg itemfunc =
     (case ctrs of
        None \<Rightarrow> (h, arg)
      | Some a \<Rightarrow>
          (case cells h a of
             None \<Rightarrow> (h, arg)
           | Some ns \<Rightarrow> iterate_nodes ctrs itemfunc (map fst ns) h arg))"

text \<open>
  Modelled from the spec: the index module (\<^verbatim>\<open>index.h\<close>, \<^verbatim>\<open>index_find\<close>) is not among
  the sources. The spec gives its interface as
  \<^verbatim>\<open>lookup(term) -> optional mapping DocumentID -> TermCount\<close>, read-only, where an
  absent term is "not found". The index maps a word to the address of its counter set, and
  \<^verbatim>\<open>index_find\<close> gives that address or NULL.
\<close>

type_synonym index_t = "string \<Rightarrow> nat option"

definition index_find :: "index_t option \<Rightarrow> string \<Rightarrow> nat option" where
  "index_find idx word = (case idx of None \<Rightarrow> None | Some m \<Rightarrow> m word)"

subsection \<open>Item functions\<close>

record two_counters =
  ctrs_a :: "nat option"
  ctrs_b :: "nat option"

definition intersect_helper :: "heap \<Rightarrow> two_counters \<Rightarrow> int \<Rightarrow> int \<Rightarrow> heap \<times> two_counters" where
  "intersect_helper h pair key count =
     (let other = counters_get h (ctrs_b pair) key;
          newCount = (if count < other then count else other)
      in (counters_set h (ctrs_a pair) key newCount, pair))"

definition union_helper :: "heap \<Rightarrow> nat option \<Rightarrow> int \<Rightarrow> int \<Rightarrow> heap \<times> nat option" where
  "union_helper h dest key count =
     (let old = counters_get h dest key
      in (counters_set h dest key (c_int (old + count)), dest))"

definition copy_helper :: "heap \<Rightarrow> nat option \<Rightarrow> int \<Rightarrow> int \<Rightarrow> heap \<times> nat option" where
  "copy_helper h dest key count = (counters_set h dest key count, dest)"

definition zero_helper :: "heap \<Rightarrow> nat option \<Rightarrow> int \<Rightarrow> int \<Rightarrow> heap \<times> nat option" where
  "zero_helper h dest key count = (counters_set h dest key 0, dest)"

definition counters_intersect :: "heap \<Rightarrow> nat option \<Rightarrow> nat option \<Rightarrow> heap" where
  "counters_intersect h dest src =
     (if dest = None \<or> src = None then h
      else fst (counters_iterate h dest \<lparr>ctrs_a = dest, ctrs_b = src\<rparr> intersect_helper))"

definition counters_union :: "heap \<Rightarrow> nat option \<Rightarrow> nat option \<Rightarrow> heap" where
  "counters_union h dest src =
     (if dest = None \<or> src = None then h
      else fst (counters_iterate h src dest union_helper))"

subsection \<open>Query evaluation\<close>

text \<open>
  The loop of \<^verbatim>\<open>evaluate_andsequence\<close>, with its variables \<open>i\<close> and \<open>result\<close>. It
  returns them with the store when it stops at an \<open>or\<close> or at the end of the array.
\<close>

function andsequence_loop ::
  "index_t option \<Rightarrow> string list \<Rightarrow> nat \<Rightarrow> nat option \<Rightarrow> heap \<Rightarrow> nat option \<times> nat \<times> heap" where
  "andsequence_loop idx words i result h =
     (if i < length words \<and> words ! i \<noteq> ''or'' then
        (if words ! i = ''and'' then andsequence_loop idx words (i + 1) result h
         else
           (let wordCtrs = index_find idx (words ! i) in
            if result = None then
              (case counters_new h of
                 (result', h1) \<Rightarrow>
                   (let h2 = (if wordCtrs \<noteq> None
                              then fst (counters_iterate h1 wordCtrs result' copy_helper)
                              else h1)
                    in andsequence_loop idx words (i + 1) result' h2))
            else
              (let h1 = (if wordCtrs = None
                         then fst (counters_iterate h result result zero_helper)
                         else counters_intersect h result wordCtrs)
               in andsequence_loop idx words (i + 1) result h1)))
      else (result, i, h))"
  by pat_completeness auto
termination
  by (relation "measure (\<lambda>(idx, words, i, result, h). length words - i)") auto

declare andsequence_loop.simps [simp del]

text \<open>
  \<^verbatim>\<open>evaluate_andsequence(index, words, nwords, start, &end)\<close> returns the result, the
  value stored in \<^verbatim>\<open>*end_out\<close> and the store.
\<close>

definition evaluate_andsequence ::
  "heap \<Rightarrow> index_t option \<Rightarrow> string list \<Rightarrow> nat \<Rightarrow> nat option \<times> nat \<times> heap" where
  "evaluate_andsequence h idx words start =
     (case andsequence_loop idx words start None h of
        (result, i, h1) \<Rightarrow>
          (case (if result = None then counters_new h1 else (result, h1)) of
             (result', h2) \<Rightarrow> (result', i, h2)))"

lemma andsequence_loop_stop:
  "\<not> (i < length words \<and> words ! i \<noteq> ''or'') \<Longrightarrow>
     andsequence_loop idx words i result h = (result, i, h)"
  by (subst andsequence_loop.simps) auto

lemma andsequence_loop_and:
  "i < length words \<Longrightarrow> words ! i = ''and'' \<Longrightarrow>
     andsequence_loop idx words i result h = andsequence_loop idx words (i + 1) result h"
  by (subst andsequence_loop.simps) simp

lemma andsequence_loop_first:
  "i < length words \<Longrightarrow> words ! i \<noteq> ''or'' \<Longrightarrow> words ! i \<noteq> ''and'' \<Longrightarrow>
     andsequence_loop idx words i None h =
       andsequence_loop idx words (i + 1) (fst (counters_new h))
         (if index_find idx (words ! i) \<noteq> None
          then fst (counters_iterate (snd (counters_new h)) (index_find idx (words ! i))
                      (fst (counters_new h)) copy_helper)
          else snd (counters_new h))"
  by (subst andsequence_loop.simps) (simp add: Let_def split: prod.splits)

lemma andsequence_loop_next:
  "i < length words \<Longrightarrow> words ! i \<noteq> ''or'' \<Longrightarrow> words ! i \<noteq> ''and'' \<Longrightarrow>
     andsequence_loop idx words i (Some r) h =
       andsequence_loop idx words (i + 1) (Some r)
         (if index_find idx (words ! i) = None
          then fst (counters_iterate h (Some r) (Some r) zero_helper)
          else counters_intersect h (Some r) (index_find idx (words ! i)))"
  by (subst andsequence_loop.simps) (simp add: Let_def)

lemma andsequence_loop_end:
  "andsequence_loop idx words i result h = (r, e, h') \<Longrightarrow>
     i \<le> e \<and> (e < length words \<longrightarrow> words ! e = ''or'')"
proof (induction "length words - i" arbitrary: i result h rule: less_induct)
  case less
  show ?case
  proof (cases "i < length words \<and> words ! i \<noteq> ''or''")
    case False
    with less.prems show ?thesis
      by (auto simp: andsequence_loop_stop)
  next
    case True
    then have smaller: "length words - (i + 1) < length words - i"
      by auto
    show ?thesis
    proof (cases "words ! i = ''and''")
      case True
      with \<open>i < length words \<and> words ! i \<noteq> ''or''\<close> less.prems
      have "andsequence_loop idx words (i + 1) result h = (r, e, h')"
        by (simp add: andsequence_loop_and)
      from less.hyps [OF smaller this] show ?thesis by auto
    next
      case False
      show ?thesis
      proof (cases result)
        case None
        with True False less.prems
        have "\<exists>res hh. andsequence_loop idx words (i + 1) res hh = (r, e, h')"
          by (metis andsequence_loop_first)
        then obtain res hh where "andsequence_loop idx words (i + 1) res hh = (r, e, h')"
          by blast
        from less.hyps [OF smaller this] show ?thesis by auto
      next
        case (Some a)
        with True False less.prems
        have "\<exists>res hh. andsequence_loop idx words (i + 1) res hh = (r, e, h')"
          by (metis andsequence_loop_next)
        then obtain res hh where "andsequence_loop idx words (i + 1) res hh = (r, e, h')"
          by blast
        from less.hyps [OF smaller this] show ?thesis by auto
      qed
    qed
  qed
qed

lemma evaluate_andsequence_end:
  "evaluate_andsequence h idx words i = (r, e, h') \<Longrightarrow>
     i \<le> e \<and> (e < length words \<longrightarrow> words ! e = ''or'')"
  unfolding evaluate_andsequence_def
  by (auto split: prod.splits dest: andsequence_loop_end)

text \<open>
  The loop of \<^verbatim>\<open>evaluate_query\<close>, with its variables \<open>i\<close>, \<open>orResult\<close> and
  \<open>haveOrResult\<close>.
\<close>

function query_or_loop ::
  "index_t option \<Rightarrow> string list \<Rightarrow> nat \<Rightarrow> nat option \<Rightarrow> bool \<Rightarrow> heap \<Rightarrow> nat option \<times> heap" where
  "query_or_loop idx words i orResult haveOrResult h =
     (if i < length words then
        (case evaluate_andsequence h idx words i of
           (andResult, end, h1) \<Rightarrow>
             (let (orResult', h2) =
                    (if \<not> haveOrResult
                     then (andResult, counters_delete h1 orResult)
                     else (orResult, counters_delete (counters_union h1 orResult andResult) andResult));
                  i' = (if end < length words \<and> words ! end = ''or'' then end + 1 else end)
              in query_or_loop idx words i' orResult' True h2))
      else (orResult, h))"
  by pat_completeness auto
termination
  apply (relation "measure (\<lambda>(idx, words, i, orResult, haveOrResult, h). length words - i)")
   apply simp
  apply (auto dest!: evaluate_andsequence_end [OF sym] split: if_splits)
  done

declare query_or_loop.simps [simp del]

text \<open>
  \<^verbatim>\<open>evaluate_query(index, words, nwords)\<close>. The messages on stderr are left out; the
  \<^verbatim>\<open>exit(2)\<close> after a failed \<^verbatim>\<open>counters_new\<close> is \<open>Exited 2\<close>.
\<close>

definition evaluate_query ::
  "heap \<Rightarrow> index_t option \<Rightarrow> string list option \<Rightarrow> (nat option \<times> heap) result" where
  "evaluate_query h idx words_opt =
     (if idx = None \<or> words_opt = None then Returned (counters_new h)
      else
        (case counters_new h of
           (None, h1) \<Rightarrow> Exited 2
         | (Some a, h1) \<Rightarrow> Returned (query_or_loop idx (the words_opt) 0 (Some a) False h1)))"

subsection \<open>Ranking and printing\<close>

text \<open>
  Modelled from the spec: the page files are outside the sources. The spec gives the
  document store as \<^verbatim>\<open>resolve(DocumentID) -> optional display string\<close>. A page
  directory maps a document to the first line of its file without the newline, \<open>None\<close>
  when the file cannot be opened or is empty. \<^verbatim>\<open>get_url\<close> reads the line with
  \<^verbatim>\<open>fgets\<close> into \<^verbatim>\<open>char buffer[1024]\<close>, so it keeps at most 1023 bytes of it,
  strips the newline and copies the C string in the buffer into allocated memory.
\<close>

type_synonym pagedir = "int \<Rightarrow> string option"

definition first_line :: "string \<Rightarrow> string" where
  "first_line l = cstr (take 1023 l) 0"

definition get_url :: "heap \<Rightarrow> pagedir option \<Rightarrow> int \<Rightarrow> (string option \<times> heap) result" where
  "get_url h pageDirectory docID =
     (case pageDirectory of
        None \<Rightarrow> Returned (None, h)
      | Some pages \<Rightarrow>
          (if docID \<le> 0 then Returned (None, h)
           else
             (case pages docID of
                None \<Rightarrow> Returned (None, h)
              | Some l \<Rightarrow>
                  (case mem_malloc h of
                     (False, h') \<Rightarrow> Exited 2
                   | (True, h') \<Rightarrow> Returned (Some (first_line l), h')))))"

record docscore =
  docID :: int
  score :: int

record collect_arg =
  array :: "docscore list"
  index :: nat

definition count_nonzero :: "heap \<Rightarrow> int \<Rightarrow> int \<Rightarrow> int \<Rightarrow> heap \<times> int" where
  "count_nonzero h n key count = (if count > 0 then (h, n + 1) else (h, n))"

text \<open>
  \<^verbatim>\<open>collect_nonzero\<close> stores into \<^verbatim>\<open>ca->array[ca->index]\<close>; the array is the list
  of its slots.
\<close>

definition collect_nonzero :: "heap \<Rightarrow> collect_arg \<Rightarrow> int \<Rightarrow> int \<Rightarrow> heap \<times> collect_arg" where
  "collect_nonzero h ca key count =
     (if count \<le> 0 then (h, ca)
      else (h, ca\<lparr>array := (array ca)[index ca := \<lparr>docID = key, score = count\<rparr>],
                  index := index ca + 1\<rparr>))"

definition cmp_docscore_desc :: "docscore \<Rightarrow> docscore \<Rightarrow> int" where
  "cmp_docscore_desc da db = score db - score da"

text \<open>
  \<^verbatim>\<open>qsort\<close> of the C library orders the array by the comparison function and leaves the
  order of elements that compare equal unspecified. Here it is an insertion sort, which
  keeps such elements in the order they had.
\<close>

fun qsort_insert :: "('a \<Rightarrow> 'a \<Rightarrow> int) \<Rightarrow> 'a \<Rightarrow> 'a list \<Rightarrow> 'a list" where
  "qsort_insert cmp x [] = [x]"
| "qsort_insert cmp x (y # ys) =
     (if cmp x y \<le> 0 then x # y # ys else y # qsort_insert cmp x ys)"

definition qsort :: "'a list \<Rightarrow> ('a \<Rightarrow> 'a \<Rightarrow> int) \<Rightarrow> 'a list" where
  "qsort base cmp = foldr (qsort_insert cmp) base []"

text \<open>
  What \<^verbatim>\<open>rank_and_print\<close> writes: the message about a NULL parameter, the line
  \<^verbatim>\<open>No documents match.\<close>, or the count line followed by one line per document with
  its score, its identifier and its URL (\<open>None\<close> is printed as \<^verbatim>\<open>(no-url)\<close>).
\<close>

datatype printed =
    GotNullParameter
  | NoDocumentsMatch
  | Matches int "(int \<times> int \<times> string option) list"

function print_loop ::
  "pagedir option \<Rightarrow> docscore list \<Rightarrow> nat \<Rightarrow> nat \<Rightarrow> (int \<times> int \<times> string option) list \<Rightarrow> heap \<Rightarrow>
     ((int \<times> int \<times> string option) list \<times> heap) result" where
  "print_loop pageDirectory docs n i out h =
     (if i < n then
        (let id = docID (docs ! i);
             score = score (docs ! i)
         in case get_url h pageDirectory id of
              Exited e \<Rightarrow> Exited e
            | Overrun \<Rightarrow> Overrun
            | Returned (url, h') \<Rightarrow>
                print_loop pageDirectory docs n (i + 1) (out @ [(score, id, url)]) h')
      else Returned (out, h))"
  by pat_completeness auto
termination
  by (relation "measure (\<lambda>(pageDirectory, docs, n, i, out, h). n - i)") auto

declare print_loop.simps [simp del]

definition rank_and_print ::
  "heap \<Rightarrow> nat option \<Rightarrow> pagedir option \<Rightarrow> (printed \<times> heap) result" where
  "rank_and_print h results pageDirectory =
     (if results = None \<or> pageDirectory = None then Returned (GotNullParameter, h)
      else
        (let n = snd (counters_iterate h results 0 count_nonzero) in
         if n = 0 then Returned (NoDocumentsMatch, h)
         else
           (case mem_malloc h of
              (False, h1) \<Rightarrow> Exited 2
            | (True, h1) \<Rightarrow>
                (let docs = replicate (nat n) \<lparr>docID = 0, score = 0\<rparr>;
                     arg = snd (counters_iterate h1 results \<lparr>array = docs, index = 0\<rparr> collect_nonzero);
                     docs' = qsort (array arg) cmp_docscore_desc
                 in case print_loop pageDirectory docs' (nat n) 0 [] h1 of
                      Exited e \<Rightarrow> Exited e
                    | Overrun \<Rightarrow> Overrun
                    | Returned (out, h2) \<Rightarrow> Returned (Matches n out, h2)))))"

subsection \<open>The query loop\<close>

text \<open>
  What one pass of the loop of \<^verbatim>\<open>query_loop\<close> does with a line: it prints a
  diagnostic and goes on to the next line, it skips a blank line, or it echoes the words,
  evaluates the query and prints the ranking.
\<close>

datatype block =
    Diagnostic "diag option"
  | BlankLine
  | Answered "string list" printed

definition query_step ::
  "heap \<Rightarrow> index_t option \<Rightarrow> pagedir option \<Rightarrow> string \<Rightarrow> (block \<times> heap) result" where
  "query_step h idx pageDirectory line =
     (case tokenize_and_validate h (Some line) of
        Exited e \<Rightarrow> Exited e
      | Overrun \<Rightarrow> Overrun
      | Returned (t, h1) \<Rightarrow>
          (if \<not> ok t then Returned (Diagnostic (message t), h1)
           else if nwords_out t = 0 then Returned (BlankLine, h1)
           else
             (case evaluate_query h1 idx (words_out t) of
                Exited e \<Rightarrow> Exited e
              | Overrun \<Rightarrow> Overrun
              | Returned (results, h2) \<Rightarrow>
                  (case rank_and_print h2 results pageDirectory of
                     Exited e \<Rightarrow> Exited e
                   | Overrun \<Rightarrow> Overrun
                   | Returned (p, h3) \<Rightarrow>
                       Returned (Answered (the (words_out t)) p, counters_delete h3 results)))))"

text \<open>
  \<^verbatim>\<open>query_loop(pageDirectory, index)\<close> over the lines that \<^verbatim>\<open>fgets\<close> delivers until
  end of input: the blocks printed, in order.
\<close>

fun query_lines ::
  "heap \<Rightarrow> index_t option \<Rightarrow> pagedir option \<Rightarrow> string list \<Rightarrow> (block list \<times> heap) result" where
  "query_lines h idx pageDirectory [] = Returned ([], h)"
| "query_lines h idx pageDirectory (line # lines) =
     (case query_step h idx pageDirectory line of
        Exited e \<Rightarrow> Exited e
      | Overrun \<Rightarrow> Overrun
      | Returned (b, h1) \<Rightarrow>
          (case query_lines h1 idx pageDirectory lines of
             Exited e \<Rightarrow> Exited e
           | Overrun \<Rightarrow> Overrun
           | Returned (bs, h2) \<Rightarrow> Returned (b # bs, h2)))"

definition query_loop ::
  "heap \<Rightarrow> pagedir option \<Rightarrow> index_t option \<Rightarrow> string list \<Rightarrow> (block list \<times> heap) result" where
  "query_loop h pageDirectory idx lines =
     (if pageDirectory = None \<or> idx = None
      then Returned ([Diagnostic (Some (NullParameter ''query_loop''))], h)
      else query_lines h idx pageDirectory lines)"

section \<open>Specification-level definitions\<close>

text \<open>
  These definitions are written from the words of the specification, to be compared with
  the functions above. Where the program computes in \<^verbatim>\<open>int\<close> or through a buffer
  (\<open>union_counts\<close>, \<open>first_line\<close>), the functions that describe what it prints
  (\<open>score_map\<close>, \<open>printed_ranking\<close>, \<open>answer\<close>) do the same.
\<close>

text \<open>
  The placements of operators that the grammar forbids: an operator first, an operator
  last, or two operators in a row.
\<close>

definition misplaced_operator :: "string list \<Rightarrow> bool" where
  "misplaced_operator ws =
     (is_operator (Some (hd ws)) \<or> is_operator (Some (last ws)) \<or>
      (\<exists>j. Suc j < length ws \<and> is_operator (Some (ws ! j)) \<and> is_operator (Some (ws ! Suc j))))"

text \<open>
  The maximal runs of alphabetic characters of a string, from left to right; the tokens of
  a line are the runs of the lowercased line.
\<close>

function alpha_runs :: "string \<Rightarrow> string list" where
  "alpha_runs s =
     (case dropWhile (\<lambda>c. \<not> isalpha c) s of
        [] \<Rightarrow> []
      | c # cs \<Rightarrow> takeWhile isalpha (c # cs) # alpha_runs (dropWhile isalpha (c # cs)))"
  by pat_completeness auto
termination
proof (relation "measure length", goal_cases)
  case 1
  then show ?case by simp
next
  case (2 s c cs)
  have "isalpha c"
    using hd_dropWhile [of "\<lambda>c. \<not> isalpha c" s] 2 by simp
  then have "length (dropWhile isalpha (c # cs)) \<le> length cs"
    by (simp add: length_dropWhile_le)
  moreover have "length (c # cs) \<le> length s"
    using length_dropWhile_le [of "\<lambda>c. \<not> isalpha c" s] 2 by simp
  ultimately show ?case by simp
qed

declare alpha_runs.simps [simp del]

definition spec_tokens :: "string \<Rightarrow> string list" where
  "spec_tokens line = alpha_runs (map tolower line)"

text \<open>
  What the library keeps true of a counter set: one node per key, and no negative key or
  count (\<^verbatim>\<open>counters_set\<close> refuses them). A well-formed store has handed out no address
  at or above \<open>fresh\<close>, and a well-formed index maps its words to counter sets of the
  store. The postings of a word are the nodes of its counter set, if the index holds it.
\<close>

definition wf_counters :: "counters \<Rightarrow> bool" where
  "wf_counters ns = (distinct (map fst ns) \<and> (\<forall>(k, c)\<in>set ns. 0 \<le> k \<and> 0 \<le> c))"

definition wf_heap :: "heap \<Rightarrow> bool" where
  "wf_heap h = (\<forall>a. fresh h \<le> a \<longrightarrow> cells h a = None)"

definition wf_index :: "heap \<Rightarrow> index_t \<Rightarrow> bool" where
  "wf_index h idx = (\<forall>w a. idx w = Some a \<longrightarrow> (\<exists>ns. cells h a = Some ns \<and> wf_counters ns))"

definition postings :: "heap \<Rightarrow> index_t \<Rightarrow> string \<Rightarrow> counters option" where
  "postings h idx w = (case idx w of None \<Rightarrow> None | Some a \<Rightarrow> cells h a)"

text \<open>
  Score maps as the specification has them: \<open>count_in m d\<close> is \<open>m.get(d, 0)\<close> and
  \<open>put m d c\<close> is \<open>m[d] = c\<close>, a new document going last.
\<close>

definition count_in :: "counters \<Rightarrow> int \<Rightarrow> int" where
  "count_in ns d = (case map_of ns d of None \<Rightarrow> 0 | Some c \<Rightarrow> c)"

definition put :: "counters \<Rightarrow> int \<Rightarrow> int \<Rightarrow> counters" where
  "put ns d c = (if d \<in> fst ` set ns then map (\<lambda>(k, v). if k = d then (k, c) else (k, v)) ns
                 else ns @ [(d, c)])"

text \<open>
  The AND rule for one more term: every document of the accumulator keeps the minimum of
  its score and its count in the term's postings, 0 when the term is not in the index. The
  OR rule: every entry of the group is added to the result. An AND-group starts from a copy
  of the postings of its first term.

  \<open>or_merge\<close> is the OR rule in the integers, as the specification words it.
  \<open>union_counts\<close> is what \<^verbatim>\<open>counters_union\<close> leaves: the sum is taken in \<^verbatim>\<open>int\<close>,
  and an entry whose sum comes out negative is left as it was, because
  \<^verbatim>\<open>counters_set\<close> refuses a negative count (\<open>set_count\<close>).
\<close>

fun and_update :: "counters \<Rightarrow> counters option \<Rightarrow> counters" where
  "and_update acc None = map (\<lambda>(d, s). (d, 0)) acc"
| "and_update acc (Some post) = map (\<lambda>(d, s). (d, min s (count_in post d))) acc"


definition set_count :: "counters \<Rightarrow> int \<Rightarrow> int \<Rightarrow> counters" where
  "set_count ns d c = (if c < 0 then ns else put ns d c)"

definition union_counts :: "counters \<Rightarrow> counters \<Rightarrow> counters" where
  "union_counts res grp = foldl (\<lambda>r (d, c). set_count r d (c_int (count_in r d + c))) res grp"

definition and_group :: "(string \<Rightarrow> counters option) \<Rightarrow> string list \<Rightarrow> counters" where
  "and_group look terms =
     (case terms of
        [] \<Rightarrow> []
      | t # ts \<Rightarrow> foldl and_update (case look t of None \<Rightarrow> [] | Some p \<Rightarrow> p) (map look ts))"

text \<open>
  The score map of a query: the query is cut at each \<open>or\<close>, the words \<open>and\<close> are
  dropped, the first group seeds the result and each later group is merged into it with
  \<open>union_counts\<close>.
\<close>

function or_combine ::
  "(string \<Rightarrow> counters option) \<Rightarrow> string list \<Rightarrow> counters option \<Rightarrow> counters option" where
  "or_combine look ws res =
     (if ws = [] then res
      else
        (let g = takeWhile (\<lambda>w. w \<noteq> ''or'') ws;
             group = and_group look (filter (\<lambda>w. w \<noteq> ''and'') g);
             res' = (case res of None \<Rightarrow> group | Some r \<Rightarrow> union_counts r group)
         in or_combine look (drop (length g + 1) ws) (Some res')))"
  by pat_completeness auto
termination
  by (relation "measure (\<lambda>(look, ws, res). length ws)") auto

declare or_combine.simps [simp del]

definition score_map :: "(string \<Rightarrow> counters option) \<Rightarrow> string list \<Rightarrow> counters" where
  "score_map look ws = (case or_combine look ws None of None \<Rightarrow> [] | Some m \<Rightarrow> m)"

text \<open>
  One pass of the loop of \<^verbatim>\<open>evaluate_andsequence\<close> over a word that is neither
  \<open>and\<close> nor \<open>or\<close>.
\<close>

definition andsequence_word ::
  "index_t option \<Rightarrow> string \<Rightarrow> nat option \<Rightarrow> heap \<Rightarrow> nat option \<times> heap" where
  "andsequence_word idx w result h =
     (if result = None
      then (fst (counters_new h),
            if index_find idx w \<noteq> None
            then fst (counters_iterate (snd (counters_new h)) (index_find idx w)
                       (fst (counters_new h)) copy_helper)
            else snd (counters_new h))
      else (result,
            if index_find idx w = None
            then fst (counters_iterate h result result zero_helper)
            else counters_intersect h result (index_find idx w)))"

text \<open>
  The index of the specification's examples, \<open>{a: {1: 2, 2: 1}, b: {1: 3}}\<close>, in a store
  that never runs out of memory.
\<close>

definition example_store :: heap where
  "example_store = \<lparr>cells = [0 \<mapsto> [(1, 2), (2, 1)], 1 \<mapsto> [(1, 3)]], fresh = 2, budget = Unlimited\<rparr>"

definition example_index :: index_t where
  "example_index = [''a'' \<mapsto> 0, ''b'' \<mapsto> 1]"

text \<open>
  The line printed for an entry of the sorted array: the score, the document and the URL
  that \<^verbatim>\<open>get_url\<close> reads from the page directory (none for an identifier that is not
  positive), which is the part of the first line that fits the buffer.
\<close>

definition printed_line :: "pagedir \<Rightarrow> docscore \<Rightarrow> int \<times> int \<times> string option" where
  "printed_line pages d =
     (score d, docID d, if docID d \<le> 0 then None else map_option first_line (pages (docID d)))"

text \<open>
  The ranking of a score map: the entries with a score above 0, in the order of the map,
  sorted by \<^verbatim>\<open>qsort\<close> with \<^verbatim>\<open>cmp_docscore_desc\<close>, one line each; or the line
  \<^verbatim>\<open>No documents match.\<close> when there is none.
\<close>

definition printed_ranking :: "pagedir \<Rightarrow> counters \<Rightarrow> printed" where
  "printed_ranking pages ns =
     (let matches = filter (\<lambda>(k, c). c > 0) ns in
      if matches = [] then NoDocumentsMatch
      else Matches (int (length matches))
             (map (printed_line pages)
                (qsort (map (\<lambda>(k, c). \<lparr>docID = k, score = c\<rparr>) matches) cmp_docscore_desc)))"

text \<open>
  The block printed for a line, as a function of the postings of the index, the page
  directory and the line: the diagnostic of the first rule the line breaks, nothing for a
  line without words, or the words and the ranking of their score map.
\<close>

definition answer :: "(string \<Rightarrow> counters option) \<Rightarrow> pagedir \<Rightarrow> string \<Rightarrow> block" where
  "answer look pages line =
     (case find (\<lambda>c. \<not> isalpha c \<and> \<not> isspace c) line of
        Some c \<Rightarrow> Diagnostic (Some (BadCharacter c))
      | None \<Rightarrow>
          (case validate_tokens (Some (spec_tokens line)) of
             Some d \<Rightarrow> Diagnostic (Some d)
           | None \<Rightarrow>
               if spec_tokens line = [] then BlankLine
               else Answered (spec_tokens line)
                      (printed_ranking pages (score_map look (spec_tokens line)))))"

text \<open>
  The value a call returns; \<open>None\<close> when the process exits or a store lands outside an
  array.
\<close>

definition returned :: "'a result \<Rightarrow> 'a option" where
  "returned r = (case r of Returned v \<Rightarrow> Some v | _ \<Rightarrow> None)"

text \<open>
  A store that holds one counter set, at address 0.
\<close>

definition ranker_store :: "counters \<Rightarrow> heap" where
  "ranker_store ns = \<lparr>cells = [0 \<mapsto> ns], fresh = 1, budget = Unlimited\<rparr>"

text \<open>
  The index \<open>{a: {3: 1}, b: {2: 1}}\<close>, and a page directory without page files.
\<close>

definition tie_store :: heap where
  "tie_store = \<lparr>cells = [0 \<mapsto> [(3, 1)], 1 \<mapsto> [(2, 1)]], fresh = 2, budget = Unlimited\<rparr>"

definition tie_index :: index_t where
  "tie_index = [''a'' \<mapsto> 0, ''b'' \<mapsto> 1]"

definition no_pages :: pagedir where
  "no_pages = (\<lambda>d. None)"

text \<open>
  An index whose postings hold the count \<open>INT_MAX\<close>, and a page directory whose page 1
  starts with a line of 2000 bytes.
\<close>

definition big_store :: heap where
  "big_store = \<lparr>cells = [0 \<mapsto> [(1, 2147483647), (2, 1)]], fresh = 1, budget = Unlimited\<rparr>"

definition big_index :: index_t where
  "big_index = [''a'' \<mapsto> 0]"

definition long_pages :: pagedir where
  "long_pages = (\<lambda>d. if d = 1 then Some (replicate 2000 CHR ''x'') else None)"

section \<open>Properties\<close>

declare is_operator.simps [simp del]

subsection \<open>Token validation\<close>



lemma adjacent_loop_None:
  "(adjacent_loop ws i = None) =
     (\<forall>j. i \<le> j \<and> j < length ws \<longrightarrow>
          \<not> (is_operator (Some (ws ! (j - 1))) \<and> is_operator (Some (ws ! j))))"
proof (induction ws i rule: adjacent_loop.induct)
  case (1 words i)
  show ?case
  proof (cases "i < length words")
    case False
    then show ?thesis
      by (subst adjacent_loop.simps) auto
  next
    case True
    note lt = True
    show ?thesis
    proof (cases "is_operator (Some (words ! (i - 1))) \<and> is_operator (Some (words ! i))")
      case True
      with lt have "adjacent_loop words i \<noteq> None"
        by (subst adjacent_loop.simps) simp
      moreover from True lt have "\<not> (\<forall>j. i \<le> j \<and> j < length words \<longrightarrow>
          \<not> (is_operator (Some (words ! (j - 1))) \<and> is_operator (Some (words ! j))))"
        by blast
      ultimately show ?thesis by blast
    next
      case False
      with lt have eq: "adjacent_loop words i = adjacent_loop words (i + 1)"
        by (subst adjacent_loop.simps) auto
      have "(\<forall>j. i \<le> j \<and> j < length words \<longrightarrow>
          \<not> (is_operator (Some (words ! (j - 1))) \<and> is_operator (Some (words ! j)))) =
        (\<forall>j. i + 1 \<le> j \<and> j < length words \<longrightarrow>
          \<not> (is_operator (Some (words ! (j - 1))) \<and> is_operator (Some (words ! j))))"
        using False by (metis Suc_eq_plus1 Suc_leI le_eq_less_or_eq Suc_leD)
      with "1.IH" [OF lt False] eq show ?thesis by simp
    qed
  qed
qed

lemma adjacent_loop_Some:
  "adjacent_loop ws i = Some d \<Longrightarrow> 0 < i \<Longrightarrow>
     \<exists>j. Suc j < length ws \<and> d = CannotBeAdjacent (ws ! j) (ws ! Suc j) \<and>
         is_operator (Some (ws ! j)) \<and> is_operator (Some (ws ! Suc j))"
proof (induction ws i rule: adjacent_loop.induct)
  case (1 words i)
  from "1.prems" have lt: "i < length words"
    by (subst (asm) adjacent_loop.simps) (auto split: if_splits)
  show ?case
  proof (cases "is_operator (Some (words ! (i - 1))) \<and> is_operator (Some (words ! i))")
    case True
    with lt "1.prems" have "d = CannotBeAdjacent (words ! (i - 1)) (words ! i)"
      by (subst (asm) adjacent_loop.simps) simp
    with True lt "1.prems"(2) show ?thesis
      by (intro exI [of _ "i - 1"]) simp
  next
    case False
    with lt "1.prems" have "adjacent_loop words (i + 1) = Some d"
      by (subst (asm) adjacent_loop.simps) auto
    from "1.IH" [OF lt False this] show ?thesis by simp
  qed
qed

lemma validate_tokens_None_iff:
  "(validate_tokens (Some ws) = None) = (ws = [] \<or> \<not> misplaced_operator ws)"
proof (cases "ws = []")
  case True
  then show ?thesis by (simp add: validate_tokens_def)
next
  case False
  then have hd: "ws ! 0 = hd ws" and last: "ws ! (length ws - Suc 0) = last ws"
    by (simp_all add: hd_conv_nth last_conv_nth)
  have shift: "(\<forall>j. Suc 0 \<le> j \<and> j < length ws \<longrightarrow> \<not> (P (j - 1) \<and> P j)) =
      (\<forall>j. Suc j < length ws \<longrightarrow> \<not> (P j \<and> P (Suc j)))" for P :: "nat \<Rightarrow> bool"
  proof (intro iffI allI impI)
    fix j
    assume a: "\<forall>j. Suc 0 \<le> j \<and> j < length ws \<longrightarrow> \<not> (P (j - 1) \<and> P j)" and "Suc j < length ws"
    with a [rule_format, of "Suc j"] show "\<not> (P j \<and> P (Suc j))" by simp
  next
    fix j
    assume a: "\<forall>j. Suc j < length ws \<longrightarrow> \<not> (P j \<and> P (Suc j))" and j: "Suc 0 \<le> j \<and> j < length ws"
    then obtain k where "j = Suc k" by (cases j) auto
    with a [rule_format, of k] j show "\<not> (P (j - 1) \<and> P j)" by simp
  qed
  have adj: "(adjacent_loop ws (Suc 0) = None) =
      (\<not> (\<exists>j. Suc j < length ws \<and> is_operator (Some (ws ! j)) \<and> is_operator (Some (ws ! Suc j))))"
    unfolding adjacent_loop_None shift [of "\<lambda>j. is_operator (Some (ws ! j))"] by blast
  from False show ?thesis
    unfolding validate_tokens_def misplaced_operator_def
    by (auto simp: hd last adj)
qed

lemma validate_tokens_Some:
  "validate_tokens (Some ws) = Some d \<Longrightarrow>
     (d = CannotBeFirst (hd ws) \<and> is_operator (Some (hd ws))) \<or>
     (d = CannotBeLast (last ws) \<and> is_operator (Some (last ws))) \<or>
     (\<exists>j. Suc j < length ws \<and> d = CannotBeAdjacent (ws ! j) (ws ! Suc j) \<and>
          is_operator (Some (ws ! j)) \<and> is_operator (Some (ws ! Suc j)))"
proof -
  assume v: "validate_tokens (Some ws) = Some d"
  then have ne: "ws \<noteq> []"
    by (auto simp: validate_tokens_def)
  then have hd: "ws ! 0 = hd ws" and last: "ws ! (length ws - Suc 0) = last ws"
    by (simp_all add: hd_conv_nth last_conv_nth)
  from v ne show ?thesis
    unfolding validate_tokens_def
    by (auto simp: hd last split: if_splits dest!: adjacent_loop_Some)
qed

subsection \<open>Tokenization\<close>

lemma alpha_runs_Nil: "alpha_runs [] = []"
  by (subst alpha_runs.simps) simp

lemma alpha_runs_skip:
  "k \<le> length xs \<Longrightarrow> (\<forall>j<k. \<not> isalpha (xs ! j)) \<Longrightarrow> alpha_runs xs = alpha_runs (drop k xs)"
proof (induction k arbitrary: xs)
  case 0
  then show ?case by simp
next
  case (Suc k)
  then obtain x xs' where xs: "xs = x # xs'"
    by (cases xs) auto
  with Suc.prems have x: "\<not> isalpha x" and rest: "\<forall>j<k. \<not> isalpha (xs' ! j)" and len: "k \<le> length xs'"
    by auto
  have "alpha_runs (x # xs') = alpha_runs xs'"
    using x by (subst alpha_runs.simps, subst (2) alpha_runs.simps) simp
  with Suc.IH [OF len rest] xs show ?case by simp
qed

lemma alpha_runs_take:
  assumes "0 < k" "k \<le> length xs" "\<forall>j<k. isalpha (xs ! j)" "k < length xs \<longrightarrow> \<not> isalpha (xs ! k)"
  shows "alpha_runs xs = take k xs # alpha_runs (drop k xs)"
proof -
  from assms obtain x xs' where xs: "xs = x # xs'" and x: "isalpha x"
    by (cases xs) auto
  have tw: "takeWhile isalpha xs = take k xs"
    using assms by (intro takeWhile_eq_take_P_nth) auto
  have dw: "dropWhile isalpha xs = drop k xs"
    using assms(2) by (simp add: dropWhile_eq_drop tw)
  have "dropWhile (\<lambda>c. \<not> isalpha c) xs = xs"
    using xs x by simp
  then show ?thesis
    using xs tw dw by (subst alpha_runs.simps) (simp del: takeWhile.simps dropWhile.simps)
qed


lemma not_isalpha_NUL: "\<not> isalpha NUL"
  by (simp add: isalpha_def NUL_def)

lemma skip_nonalpha_le: "i \<le> len \<Longrightarrow> skip_nonalpha len i line \<le> len"
proof (induction len i line rule: skip_nonalpha.induct)
  case (1 len i line)
  then show ?case
    by (subst skip_nonalpha.simps) auto
qed

lemma skip_nonalpha_between:
  "i \<le> j \<Longrightarrow> j < skip_nonalpha len i line \<Longrightarrow> \<not> isalpha (line ! j)"
proof (induction len i line rule: skip_nonalpha.induct)
  case (1 len i line)
  show ?case
  proof (cases "i < len \<and> \<not> isalpha (line ! i)")
    case True
    then have eq: "skip_nonalpha len i line = skip_nonalpha len (i + 1) line"
      by (subst skip_nonalpha.simps) simp
    show ?thesis
    proof (cases "j = i")
      case True
      with \<open>i < len \<and> \<not> isalpha (line ! i)\<close> show ?thesis by simp
    next
      case False
      with "1.prems" have "i + 1 \<le> j" by simp
      from "1.IH" [OF True this] "1.prems"(2) show ?thesis
        unfolding eq by simp
    qed
  next
    case False
    then have "skip_nonalpha len i line = i"
      by (subst skip_nonalpha.simps) auto
    with "1.prems" show ?thesis by simp
  qed
qed

lemma consume_alpha_le: "i \<le> len \<Longrightarrow> consume_alpha len i line \<le> len"
proof (induction len i line rule: consume_alpha.induct)
  case (1 len i line)
  then show ?case
    by (subst consume_alpha.simps) auto
qed

lemma consume_alpha_between:
  "i \<le> j \<Longrightarrow> j < consume_alpha len i line \<Longrightarrow> isalpha (line ! j)"
proof (induction len i line rule: consume_alpha.induct)
  case (1 len i line)
  show ?case
  proof (cases "i < len \<and> isalpha (line ! i)")
    case True
    then have eq: "consume_alpha len i line = consume_alpha len (i + 1) line"
      by (subst consume_alpha.simps) simp
    show ?thesis
    proof (cases "j = i")
      case True
      with \<open>i < len \<and> isalpha (line ! i)\<close> show ?thesis by simp
    next
      case False
      with "1.prems" have "i + 1 \<le> j" by simp
      from "1.IH" [OF True this] "1.prems"(2) show ?thesis
        unfolding eq by simp
    qed
  next
    case False
    then have "consume_alpha len i line = i"
      by (subst consume_alpha.simps) auto
    with "1.prems" show ?thesis by simp
  qed
qed

lemma consume_alpha_stops:
  "consume_alpha len i line < len \<Longrightarrow> \<not> isalpha (line ! consume_alpha len i line)"
proof (induction len i line rule: consume_alpha.induct)
  case (1 len i line)
  show ?case
  proof (cases "i < len \<and> isalpha (line ! i)")
    case True
    then have eq: "consume_alpha len i line = consume_alpha len (i + 1) line"
      by (subst consume_alpha.simps) simp
    from "1.IH" [OF True] "1.prems" show ?thesis
      unfolding eq by simp
  next
    case False
    then have eq: "consume_alpha len i line = i"
      by (subst consume_alpha.simps) auto
    from False "1.prems" show ?thesis
      unfolding eq by simp
  qed
qed

lemma cstr_eq_take:
  assumes "s \<le> e" "e < length buf" "buf ! e = NUL" "\<forall>j. s \<le> j \<and> j < e \<longrightarrow> buf ! j \<noteq> NUL"
  shows "cstr buf s = take (e - s) (drop s buf)"
  unfolding cstr_def
proof (rule takeWhile_eq_take_P_nth)
  fix i
  assume "i < e - s" "i < length (drop s buf)"
  with assms show "drop s buf ! i \<noteq> NUL" by simp
next
  assume "e - s < length (drop s buf)"
  with assms show "\<not> drop s buf ! (e - s) \<noteq> NUL" by simp
qed

lemma seg_nth:
  "i + j < len \<Longrightarrow> len \<le> length line \<Longrightarrow> drop i (take len line) ! j = line ! (i + j)"
  by simp

lemma token_loop_spec:
  assumes "len < length line" "i \<le> len" "length words = cap"
    "count + length (alpha_runs (drop i (take len line))) \<le> cap"
  shows "\<exists>line' words'.
      token_loop cap len i count line words =
        Some (line', words', count + length (alpha_runs (drop i (take len line)))) \<and>
      length line' = length line \<and> length words' = cap \<and>
      take count words' = take count words \<and>
      (\<forall>j<length line. j < i \<or> (j = i \<and> \<not> isalpha (line ! j)) \<longrightarrow> line' ! j = line ! j) \<and>
      map (cstr line') (drop count (take (count + length (alpha_runs (drop i (take len line)))) words')) =
        alpha_runs (drop i (take len line))"
  using assms
proof (induction "len - i" arbitrary: i count line words rule: less_induct)
  case less
  define seg where "seg = drop i (take len line)"
  have seg_len: "length seg = len - i"
    using less.prems by (simp add: seg_def)
  show ?case
  proof (cases "i < len")
    case False
    with less.prems have "i = len" by simp
    then have "alpha_runs (drop i (take len line)) = []"
      by (simp add: alpha_runs_Nil)
    moreover from False have "token_loop cap len i count line words = Some (line, words, count)"
      by (subst token_loop.simps) simp
    ultimately show ?thesis
      using less.prems by simp
  next
    case True
    define i1 where "i1 = skip_nonalpha len i line"
    have i1_ge: "i \<le> i1" and i1_le: "i1 \<le> len"
      using less.prems skip_nonalpha_ge skip_nonalpha_le by (simp_all add: i1_def)
    have skipped: "\<forall>j<i1 - i. \<not> isalpha (seg ! j)"
      using skip_nonalpha_between [of i _ len line] i1_le less.prems
      by (auto simp: seg_def i1_def)
    have runs_skip: "alpha_runs seg = alpha_runs (drop i1 (take len line))"
      using alpha_runs_skip [of "i1 - i" seg] skipped i1_ge i1_le seg_len
      by (simp add: seg_def)
    show ?thesis
    proof (cases "i1 < len")
      case False
      with i1_le have "i1 = len" by simp
      with runs_skip have "alpha_runs seg = []"
        by (simp add: alpha_runs_Nil)
      moreover from False True have "token_loop cap len i count line words = Some (line, words, count)"
        by (subst token_loop.simps) (simp add: i1_def [symmetric])
      ultimately show ?thesis
        using less.prems by (simp add: seg_def)
    next
      case True
      note i1_lt = True
      define i2 where "i2 = consume_alpha len i1 line"
      define line1 where "line1 = line[i2 := NUL]"
      define words1 where "words1 = words[count := i1]"
      define seg1 where "seg1 = drop i1 (take len line)"
      define seg2 where "seg2 = drop i2 (take len line)"
      have alpha_i1: "isalpha (line ! i1)"
        using skip_nonalpha_stops [of len i line] i1_lt by (simp add: i1_def)
      have i2_gt: "i1 < i2" and i2_le: "i2 \<le> len"
        using consume_alpha_gt [OF i1_lt alpha_i1] consume_alpha_le [of i1 len line] i1_le
        by (simp_all add: i2_def)
      have letters: "\<forall>j. i1 \<le> j \<and> j < i2 \<longrightarrow> isalpha (line ! j)"
        using consume_alpha_between [of i1 _ len line] by (simp add: i2_def)
      have stop: "i2 < len \<longrightarrow> \<not> isalpha (line ! i2)"
        using consume_alpha_stops [of len i1 line] by (simp add: i2_def)
      have seg1_len: "length seg1 = len - i1"
        using less.prems by (simp add: seg1_def)
      have "alpha_runs seg1 = take (i2 - i1) seg1 # alpha_runs (drop (i2 - i1) seg1)"
      proof (rule alpha_runs_take)
        show "0 < i2 - i1" using i2_gt by simp
        show "i2 - i1 \<le> length seg1" using i2_le seg1_len by simp
        show "\<forall>j<i2 - i1. isalpha (seg1 ! j)"
          using letters i2_le less.prems by (auto simp: seg1_def)
        show "i2 - i1 < length seg1 \<longrightarrow> \<not> isalpha (seg1 ! (i2 - i1))"
          using stop i2_gt i2_le less.prems by (auto simp: seg1_def)
      qed
      moreover have "drop (i2 - i1) seg1 = seg2"
        using i2_gt by (simp add: seg1_def seg2_def)
      ultimately have runs: "alpha_runs seg = take (i2 - i1) seg1 # alpha_runs seg2"
        using runs_skip by (simp add: seg1_def)
      have seg2': "alpha_runs (drop i2 (take len line1)) = alpha_runs seg2"
      proof (cases "i2 < len")
        case False
        with i2_le show ?thesis
          using less.prems by (simp add: seg2_def line1_def)
      next
        case True
        have a: "seg2 = line ! i2 # drop (Suc i2) (take len line)"
          using True less.prems by (simp add: seg2_def Cons_nth_drop_Suc [symmetric])
        have b: "drop i2 (take len line1) = NUL # drop (Suc i2) (take len line)"
          using True less.prems
          by (simp add: line1_def take_update_swap drop_update_cancel Cons_nth_drop_Suc [symmetric]
              nth_list_update)
        have "alpha_runs seg2 = alpha_runs (drop (Suc i2) (take len line))"
          using alpha_runs_skip [of 1 seg2] stop True by (simp add: a)
        moreover have "alpha_runs (drop i2 (take len line1)) = alpha_runs (drop (Suc i2) (take len line))"
          using alpha_runs_skip [of 1 "drop i2 (take len line1)"] not_isalpha_NUL by (simp add: b)
        ultimately show ?thesis by simp
      qed
      define n2 where "n2 = length (alpha_runs seg2)"
      have n: "length (alpha_runs seg) = Suc n2"
        by (simp add: runs n2_def)
      have count_lt: "count < cap"
        using less.prems(4) n by (simp add: seg_def)
      have unfold: "token_loop cap len i count line words = token_loop cap len i2 (count + 1) line1 words1"
        using \<open>i < len\<close> i1_lt count_lt
        by (subst token_loop.simps)
          (simp add: i1_def [symmetric] i2_def [symmetric] line1_def words1_def Let_def)
      have "\<exists>line' words'.
          token_loop cap len i2 (count + 1) line1 words1 =
            Some (line', words', count + 1 + length (alpha_runs (drop i2 (take len line1)))) \<and>
          length line' = length line1 \<and> length words' = cap \<and>
          take (count + 1) words' = take (count + 1) words1 \<and>
          (\<forall>j<length line1. j < i2 \<or> (j = i2 \<and> \<not> isalpha (line1 ! j)) \<longrightarrow> line' ! j = line1 ! j) \<and>
          map (cstr line') (drop (count + 1) (take (count + 1 + length (alpha_runs (drop i2 (take len line1)))) words')) =
            alpha_runs (drop i2 (take len line1))"
      proof (rule less.hyps)
        show "len - i2 < len - i" using i1_ge i2_gt \<open>i < len\<close> by simp
        show "len < length line1" using less.prems by (simp add: line1_def)
        show "i2 \<le> len" by (rule i2_le)
        show "length words1 = cap" using less.prems by (simp add: words1_def)
        show "count + 1 + length (alpha_runs (drop i2 (take len line1))) \<le> cap"
          using less.prems(4) n by (simp add: seg2' seg_def n2_def)
      qed
      then obtain line' words' where
        res: "token_loop cap len i2 (count + 1) line1 words1 = Some (line', words', count + 1 + n2)"
        and len': "length line' = length line1" and wlen': "length words' = cap"
        and wpre: "take (count + 1) words' = take (count + 1) words1"
        and keep: "\<forall>j<length line1. j < i2 \<or> (j = i2 \<and> \<not> isalpha (line1 ! j)) \<longrightarrow> line' ! j = line1 ! j"
        and toks: "map (cstr line') (drop (count + 1) (take (count + 1 + n2) words')) = alpha_runs seg2"
        unfolding seg2' n2_def by blast
      have line1_len: "length line1 = length line"
        by (simp add: line1_def)
      have i2_in: "i2 < length line"
        using i2_le less.prems by simp
      have before: "line' ! j = line ! j" if "j < i2" for j
        using keep [rule_format, of j] that i2_in by (simp add: line1_def)
      have at_end: "line' ! i2 = NUL"
        using keep [rule_format, of i2] i2_in not_isalpha_NUL by (simp add: line1_def)
      have w_count: "words' ! count = i1"
      proof -
        have "words' ! count = take (count + 1) words' ! count" by simp
        also have "\<dots> = take (count + 1) words1 ! count" by (simp only: wpre)
        also have "\<dots> = i1" using count_lt less.prems by (simp add: words1_def)
        finally show ?thesis .
      qed
      have w_pre: "take count words' = take count words"
      proof -
        have "take count words' = take count (take (count + 1) words')" by simp
        also have "\<dots> = take count (take (count + 1) words1)" by (simp only: wpre)
        also have "\<dots> = take count words" by (simp add: words1_def)
        finally show ?thesis .
      qed
      have tok: "cstr line' i1 = take (i2 - i1) seg1"
      proof -
        have "cstr line' i1 = take (i2 - i1) (drop i1 line')"
        proof (rule cstr_eq_take)
          show "i1 \<le> i2" using i2_gt by simp
          show "i2 < length line'" using i2_in len' line1_len by simp
          show "line' ! i2 = NUL" by (rule at_end)
          show "\<forall>j. i1 \<le> j \<and> j < i2 \<longrightarrow> line' ! j \<noteq> NUL"
            using before letters not_isalpha_NUL by metis
        qed
        also have "\<dots> = take (i2 - i1) seg1"
        proof (rule nth_equalityI)
          show "length (take (i2 - i1) (drop i1 line')) = length (take (i2 - i1) seg1)"
            using i2_le i2_in len' line1_len seg1_len by simp
        next
          fix j
          assume "j < length (take (i2 - i1) (drop i1 line'))"
          then have j: "j < i2 - i1" by simp
          then have "take (i2 - i1) (drop i1 line') ! j = line' ! (i1 + j)"
            using i2_in len' line1_len by simp
          also have "\<dots> = line ! (i1 + j)" using before j by simp
          also have "\<dots> = take (i2 - i1) seg1 ! j"
            using j i2_le less.prems by (simp add: seg1_def)
          finally show "take (i2 - i1) (drop i1 line') ! j = take (i2 - i1) seg1 ! j" .
        qed
        finally show ?thesis .
      qed
      have split: "drop count (take (count + Suc n2) words') =
          words' ! count # drop (count + 1) (take (count + 1 + n2) words')"
      proof -
        have "count < length (take (count + Suc n2) words')"
          using count_lt wlen' by simp
        from Cons_nth_drop_Suc [OF this, symmetric] show ?thesis by simp
      qed
      have "\<forall>j<length line. j < i \<or> (j = i \<and> \<not> isalpha (line ! j)) \<longrightarrow> line' ! j = line ! j"
        using before i1_ge i2_gt by auto
      moreover have "map (cstr line') (drop count (take (count + Suc n2) words')) = alpha_runs seg"
        by (simp only: split list.map w_count tok toks runs)
      ultimately show ?thesis
        using unfold res len' line1_len wlen' w_pre n
        by (simp add: seg_def [symmetric])
    qed
  qed
qed

lemma tolower_other: "\<not> isalpha c \<Longrightarrow> tolower c = c"
  by (auto simp: isalpha_def tolower_def Let_def)

lemma alpha_runs_Cons_other: "\<not> isalpha c \<Longrightarrow> alpha_runs (c # cs) = alpha_runs cs"
  using alpha_runs_skip [of 1 "c # cs"] by simp

lemma alpha_runs_bound:
  "2 * length (alpha_runs s) \<le> length s + (if s \<noteq> [] \<and> isalpha (hd s) then 1 else 0)"
proof (induction s rule: alpha_runs.induct)
  case (1 s)
  show ?case
  proof (cases "dropWhile (\<lambda>c. \<not> isalpha c) s")
    case Nil
    then have "alpha_runs s = []"
      by (subst alpha_runs.simps) (simp only: list.case)
    then show ?thesis by simp
  next
    case (Cons c cs)
    define rest where "rest = dropWhile isalpha (c # cs)"
    have c: "isalpha c"
      using hd_dropWhile [of "\<lambda>c. \<not> isalpha c" s] Cons by simp
    have runs: "alpha_runs s = takeWhile isalpha (c # cs) # alpha_runs rest"
      using Cons by (subst alpha_runs.simps) (simp add: rest_def)
    have rest_len: "length rest \<le> length cs"
      using c by (simp add: rest_def length_dropWhile_le)
    have rest_hd: "\<not> (rest \<noteq> [] \<and> isalpha (hd rest))"
      unfolding rest_def using hd_dropWhile [of isalpha "c # cs"] by blast
    have "2 * length (alpha_runs rest) \<le> length rest + (if rest \<noteq> [] \<and> isalpha (hd rest) then 1 else 0)"
      unfolding rest_def by (rule "1.IH" [OF Cons])
    with rest_hd have ih: "2 * length (alpha_runs rest) \<le> length rest"
      by (simp only: if_False add_0_right)
    have s_len: "length (c # cs) \<le> length s"
      using length_dropWhile_le [of "\<lambda>c. \<not> isalpha c" s] Cons by simp
    show ?thesis
    proof (cases "s \<noteq> [] \<and> isalpha (hd s)")
      case True
      with ih rest_len s_len runs show ?thesis by simp
    next
      case False
      have "length (c # cs) < length s"
      proof (cases s)
        case Nil
        with Cons show ?thesis by simp
      next
        case (Cons a list)
        with False have "\<not> isalpha a" by simp
        with Cons \<open>dropWhile (\<lambda>c. \<not> isalpha c) s = c # cs\<close>
        have "dropWhile (\<lambda>c. \<not> isalpha c) list = c # cs" by simp
        then have "length (c # cs) \<le> length list"
          using length_dropWhile_le [of "\<lambda>c. \<not> isalpha c" list] by simp
        with Cons show ?thesis by simp
      qed
      with ih rest_len runs False show ?thesis by simp
    qed
  qed
qed

lemma alpha_runs_count: "length (alpha_runs s) \<le> length s div 2 + 1"
  using alpha_runs_bound [of s] by (simp split: if_splits)

lemma first_pass_spec:
  assumes "len \<le> length line" "i \<le> len"
  shows "first_pass len i line =
     (case find (\<lambda>c. \<not> isalpha c \<and> \<not> isspace c) (drop i (take len line)) of
        Some c \<Rightarrow> Inl c
      | None \<Rightarrow> Inr (take i line @ map tolower (drop i (take len line)) @ drop len line))"
  using assms
proof (induction len i line rule: first_pass.induct)
  case (1 len i line)
  show ?case
  proof (cases "i < len")
    case False
    with "1.prems" have "i = len" by simp
    then show ?thesis
      using "1.prems" by (subst first_pass.simps) simp
  next
    case True
    define c where "c = line ! i"
    have seg: "drop i (take len line) = c # drop (Suc i) (take len line)"
      using True "1.prems" by (simp add: c_def Cons_nth_drop_Suc [symmetric])
    have pre: "take (Suc i) line = take i line @ [c]"
      using True "1.prems" by (simp add: c_def take_Suc_conv_app_nth)
    show ?thesis
    proof (cases "isalpha c")
      case True
      note alpha = True
      define line' where "line' = line[i := tolower c]"
      have "first_pass len i line = first_pass len (i + 1) line'"
        using \<open>i < len\<close> alpha by (subst first_pass.simps) (simp add: c_def line'_def)
      also have "\<dots> = (case find (\<lambda>c. \<not> isalpha c \<and> \<not> isspace c) (drop (i + 1) (take len line')) of
            Some c \<Rightarrow> Inl c
          | None \<Rightarrow> Inr (take (i + 1) line' @ map tolower (drop (i + 1) (take len line')) @ drop len line'))"
        unfolding line'_def
        by (rule "1.IH"(1) [OF \<open>i < len\<close> c_def alpha]) (use "1.prems" \<open>i < len\<close> in simp_all)
      also have "drop (i + 1) (take len line') = drop (Suc i) (take len line)"
        using \<open>i < len\<close> by (simp add: line'_def take_update_swap drop_update_cancel)
      also have "take (i + 1) line' = take i line @ [tolower c]"
        using \<open>i < len\<close> "1.prems" by (simp add: line'_def take_Suc_conv_app_nth)
      also have "drop len line' = drop len line"
        using \<open>i < len\<close> by (simp add: line'_def drop_update_cancel)
      finally show ?thesis
        using alpha unfolding seg by (simp split: option.splits)
    next
      case False
      note other = False
      show ?thesis
      proof (cases "isspace c")
        case False
        then show ?thesis
          using \<open>i < len\<close> other unfolding seg by (subst first_pass.simps) (simp add: c_def [symmetric])
      next
        case True
        have "first_pass len i line = first_pass len (i + 1) line"
          using \<open>i < len\<close> other True by (subst first_pass.simps) (simp add: c_def [symmetric])
        also have "\<dots> = (case find (\<lambda>c. \<not> isalpha c \<and> \<not> isspace c) (drop (i + 1) (take len line)) of
            Some c \<Rightarrow> Inl c
          | None \<Rightarrow> Inr (take (i + 1) line @ map tolower (drop (i + 1) (take len line)) @ drop len line))"
          by (rule "1.IH"(2) [OF \<open>i < len\<close> c_def other]) (use True "1.prems" \<open>i < len\<close> in simp_all)
        finally show ?thesis
          using other True unfolding seg by (simp add: pre tolower_other split: option.splits)
      qed
    qed
  qed
qed

lemma tokenize_and_validate_spec:
  "tokenize_and_validate h (Some s) =
     (case find (\<lambda>c. \<not> isalpha c \<and> \<not> isspace c) s of
        Some c \<Rightarrow>
          Returned (\<lparr>ok = False, words_out = None, nwords_out = 0,
                      message = Some (BadCharacter c)\<rparr>, h)
      | None \<Rightarrow>
          (case mem_malloc h of
             (False, h') \<Rightarrow> Exited 2
           | (True, h') \<Rightarrow>
               (case validate_tokens (Some (spec_tokens s)) of
                  Some d \<Rightarrow>
                    Returned (\<lparr>ok = False, words_out = Some (spec_tokens s),
                                nwords_out = length (spec_tokens s), message = Some d\<rparr>, h')
                | None \<Rightarrow>
                    Returned (\<lparr>ok = True, words_out = Some (spec_tokens s),
                                nwords_out = length (spec_tokens s), message = None\<rparr>, h'))))"
proof -
  define len where "len = length s"
  define cap where "cap = len div 2 + 1"
  define buf where "buf = map tolower s @ [NUL]"
  have fp: "first_pass len 0 (s @ [NUL]) =
      (case find (\<lambda>c. \<not> isalpha c \<and> \<not> isspace c) s of Some c \<Rightarrow> Inl c | None \<Rightarrow> Inr buf)"
    using first_pass_spec [of len "s @ [NUL]" 0] by (simp add: len_def buf_def cong: option.case_cong)
  have seg: "drop 0 (take len buf) = map tolower s"
    by (simp add: len_def buf_def)
  have "\<exists>line' words'.
      token_loop cap len 0 0 buf (replicate cap 0) =
        Some (line', words', 0 + length (alpha_runs (drop 0 (take len buf)))) \<and>
      length line' = length buf \<and> length words' = cap \<and>
      take 0 words' = take 0 (replicate cap 0) \<and>
      (\<forall>j<length buf. j < 0 \<or> (j = 0 \<and> \<not> isalpha (buf ! j)) \<longrightarrow> line' ! j = buf ! j) \<and>
      map (cstr line') (drop 0 (take (0 + length (alpha_runs (drop 0 (take len buf)))) words')) =
        alpha_runs (drop 0 (take len buf))"
  proof (rule token_loop_spec)
    show "len < length buf" by (simp add: len_def buf_def)
    show "0 \<le> len" by simp
    show "length (replicate cap 0) = cap" by simp
    show "0 + length (alpha_runs (drop 0 (take len buf))) \<le> cap"
      unfolding seg cap_def using alpha_runs_count [of "map tolower s"] by (simp add: len_def)
  qed
  then obtain line' words' where
    tl: "token_loop cap len 0 0 buf (replicate cap 0) = Some (line', words', length (spec_tokens s))"
    and toks: "map (cstr line') (take (length (spec_tokens s)) words') = spec_tokens s"
    unfolding seg spec_tokens_def by auto
  show ?thesis
    unfolding tokenize_and_validate_def
    using tl [unfolded cap_def] toks
    by (simp add: Let_def len_def [symmetric] fp
        split: option.splits prod.splits bool.splits)
qed

lemma isspace_not_isalpha: "isspace c \<Longrightarrow> \<not> isalpha c"
  by (auto simp: isspace_def isalpha_def Let_def)

lemma spec_tokens_blank: "\<forall>c\<in>set line. isspace c \<Longrightarrow> spec_tokens line = []"
proof -
  assume sp: "\<forall>c\<in>set line. isspace c"
  then have "map tolower line = line"
    by (intro map_idI) (simp add: tolower_other isspace_not_isalpha)
  moreover have "alpha_runs line = alpha_runs (drop (length line) line)"
    using sp by (intro alpha_runs_skip) (auto simp: isspace_not_isalpha)
  ultimately show ?thesis
    by (simp add: spec_tokens_def alpha_runs_Nil)
qed

lemma mem_malloc_ok:
  "budget h \<noteq> Remaining 0 \<Longrightarrow> \<exists>h'. mem_malloc h = (True, h') \<and> cells h' = cells h \<and> fresh h' = fresh h"
  by (cases "budget h" rule: spend.cases) (auto simp: mem_malloc_def)

lemma tokenize_and_validate_store:
  "tokenize_and_validate h (Some line) = Returned (t, h') \<Longrightarrow> cells h' = cells h \<and> fresh h' = fresh h"
  unfolding tokenize_and_validate_spec
  by (auto simp: mem_malloc_def split: option.splits prod.splits bool.splits)

lemma query_step_rejected:
  "tokenize_and_validate h (Some line) = Returned (t, h1) \<Longrightarrow> \<not> ok t \<Longrightarrow>
     query_step h idx pageDirectory line = Returned (Diagnostic (message t), h1)"
  by (simp add: query_step_def)


text \<open>
  Claim C5. \<^verbatim>\<open>validate_tokens\<close> rejects a token sequence exactly when it is not empty and
  an operator is first, an operator is last, or two operators are adjacent; the empty
  sequence and every other sequence are accepted. A rejection prints the diagnostic of the
  rule that is broken, with the offending words. When the tokens of a line are rejected, the
  loop prints that diagnostic and goes on: the store holds the counter sets it held and no
  address has been handed out, so no query was evaluated.
\<close>

theorem validate_tokens_placement:
  "(validate_tokens (Some ws) \<noteq> None) = (ws \<noteq> [] \<and> misplaced_operator ws) \<and>
   (\<forall>d. validate_tokens (Some ws) = Some d \<longrightarrow>
      (d = CannotBeFirst (hd ws) \<and> is_operator (Some (hd ws))) \<or>
      (d = CannotBeLast (last ws) \<and> is_operator (Some (last ws))) \<or>
      (\<exists>j. Suc j < length ws \<and> d = CannotBeAdjacent (ws ! j) (ws ! Suc j) \<and>
           is_operator (Some (ws ! j)) \<and> is_operator (Some (ws ! Suc j)))) \<and>
   (tokenize_and_validate h (Some line) = Returned (t, h1) \<and> words_out t = Some ws \<and>
    validate_tokens (Some ws) \<noteq> None \<longrightarrow>
      query_step h idx pageDirectory line = Returned (Diagnostic (validate_tokens (Some ws)), h1) \<and>
      cells h1 = cells h \<and> fresh h1 = fresh h)"
proof (intro conjI allI impI)
  show "(validate_tokens (Some ws) \<noteq> None) = (ws \<noteq> [] \<and> misplaced_operator ws)"
    using validate_tokens_None_iff [of ws] by auto
next
  fix d
  assume "validate_tokens (Some ws) = Some d"
  then show "(d = CannotBeFirst (hd ws) \<and> is_operator (Some (hd ws))) \<or>
      (d = CannotBeLast (last ws) \<and> is_operator (Some (last ws))) \<or>
      (\<exists>j. Suc j < length ws \<and> d = CannotBeAdjacent (ws ! j) (ws ! Suc j) \<and>
           is_operator (Some (ws ! j)) \<and> is_operator (Some (ws ! Suc j)))"
    by (rule validate_tokens_Some)
next
  assume a: "tokenize_and_validate h (Some line) = Returned (t, h1) \<and> words_out t = Some ws \<and>
      validate_tokens (Some ws) \<noteq> None"
  then have tz: "tokenize_and_validate h (Some line) = Returned (t, h1)" by simp
  from a have "\<not> ok t \<and> message t = validate_tokens (Some ws)"
    unfolding tokenize_and_validate_spec
    by (auto split: option.splits prod.splits bool.splits)
  with query_step_rejected [OF tz, of idx pageDirectory]
  show "query_step h idx pageDirectory line = Returned (Diagnostic (validate_tokens (Some ws)), h1)"
    by simp
  from tokenize_and_validate_store [OF tz] show "cells h1 = cells h" and "fresh h1 = fresh h"
    by simp_all
qed


theorem validate_tokens_placement_witness:
  "validate_tokens (Some [''dog'', ''and'', ''or'', ''cat'']) = Some (CannotBeAdjacent ''and'' ''or'') \<and>
   misplaced_operator [''dog'', ''and'', ''or'', ''cat''] \<and>
   query_step \<lparr>cells = Map.empty, fresh = 0, budget = Unlimited\<rparr> None None ''dog and or cat'' =
     Returned (Diagnostic (Some (CannotBeAdjacent ''and'' ''or'')),
               \<lparr>cells = Map.empty, fresh = 0, budget = Unlimited\<rparr>)"
proof -
  let ?ws = "[''dog'', ''and'', ''or'', ''cat'']"
  let ?h = "\<lparr>cells = Map.empty, fresh = 0, budget = Unlimited\<rparr>"
  let ?t = "\<lparr>ok = False, words_out = Some ?ws, nwords_out = 4,
             message = Some (CannotBeAdjacent ''and'' ''or'')\<rparr>"
  have toks: "spec_tokens ''dog and or cat'' = ?ws"
    by code_simp
  have v: "validate_tokens (Some ?ws) = Some (CannotBeAdjacent ''and'' ''or'')"
    by code_simp
  have none: "find (\<lambda>c. \<not> isalpha c \<and> \<not> isspace c) ''dog and or cat'' = None"
    by code_simp
  have tz: "tokenize_and_validate ?h (Some ''dog and or cat'') = Returned (?t, ?h)"
    unfolding tokenize_and_validate_spec none toks v by (simp add: mem_malloc_def)
  note inst = validate_tokens_placement [where ws = ?ws and h = ?h and t = ?t and ?h1.0 = ?h
      and line = "''dog and or cat''" and idx = None and pageDirectory = None]
  from inst v have "misplaced_operator ?ws"
    by simp
  moreover from inst tz v
  have "query_step ?h None None ''dog and or cat'' =
      Returned (Diagnostic (Some (CannotBeAdjacent ''and'' ''or'')), ?h)"
    by simp
  ultimately show ?thesis
    using v by simp
qed



text \<open>
  Claim C6. When a line has a byte that is neither a letter nor white space,
  \<^verbatim>\<open>tokenize_and_validate\<close> returns false with the "bad character" message for the first
  such byte, leaves \<^verbatim>\<open>*words_out\<close> NULL and \<^verbatim>\<open>*nwords_out\<close> 0, and the loop goes on
  without touching the store. Otherwise, when the array of words can be allocated, the words
  are the maximal runs of letters of the lowercased line; a line of white space only (or an
  empty line) gives no word, is accepted, and the loop skips it.
\<close>

theorem tokenize_and_validate_characters:
  "((\<exists>c\<in>set line. \<not> isalpha c \<and> \<not> isspace c) \<longrightarrow>
      (\<exists>c. find (\<lambda>c. \<not> isalpha c \<and> \<not> isspace c) line = Some c \<and>
           tokenize_and_validate h (Some line) =
             Returned (\<lparr>ok = False, words_out = None, nwords_out = 0,
                         message = Some (BadCharacter c)\<rparr>, h) \<and>
           query_step h idx pageDirectory line = Returned (Diagnostic (Some (BadCharacter c)), h))) \<and>
   ((\<forall>c\<in>set line. isalpha c \<or> isspace c) \<and> budget h \<noteq> Remaining 0 \<longrightarrow>
      (\<exists>t h'. tokenize_and_validate h (Some line) = Returned (t, h') \<and>
           words_out t = Some (spec_tokens line) \<and> nwords_out t = length (spec_tokens line))) \<and>
   ((\<forall>c\<in>set line. isspace c) \<and> budget h \<noteq> Remaining 0 \<longrightarrow>
      (\<exists>h'. tokenize_and_validate h (Some line) =
             Returned (\<lparr>ok = True, words_out = Some [], nwords_out = 0, message = None\<rparr>, h') \<and>
           query_step h idx pageDirectory line = Returned (BlankLine, h')))"
proof (intro conjI impI)
  assume "\<exists>c\<in>set line. \<not> isalpha c \<and> \<not> isspace c"
  then obtain c where c: "find (\<lambda>c. \<not> isalpha c \<and> \<not> isspace c) line = Some c"
    by (cases "find (\<lambda>c. \<not> isalpha c \<and> \<not> isspace c) line") (auto simp: find_None_iff)
  then have tz: "tokenize_and_validate h (Some line) =
      Returned (\<lparr>ok = False, words_out = None, nwords_out = 0, message = Some (BadCharacter c)\<rparr>, h)"
    by (simp add: tokenize_and_validate_spec)
  from query_step_rejected [OF tz, of idx pageDirectory] c tz
  show "\<exists>c. find (\<lambda>c. \<not> isalpha c \<and> \<not> isspace c) line = Some c \<and>
           tokenize_and_validate h (Some line) =
             Returned (\<lparr>ok = False, words_out = None, nwords_out = 0,
                         message = Some (BadCharacter c)\<rparr>, h) \<and>
           query_step h idx pageDirectory line = Returned (Diagnostic (Some (BadCharacter c)), h)"
    by simp
next
  assume a: "(\<forall>c\<in>set line. isalpha c \<or> isspace c) \<and> budget h \<noteq> Remaining 0"
  then have none: "find (\<lambda>c. \<not> isalpha c \<and> \<not> isspace c) line = None"
    by (auto simp: find_None_iff)
  from a mem_malloc_ok obtain h' where "mem_malloc h = (True, h')"
    by blast
  with none show "\<exists>t h'. tokenize_and_validate h (Some line) = Returned (t, h') \<and>
           words_out t = Some (spec_tokens line) \<and> nwords_out t = length (spec_tokens line)"
    by (auto simp: tokenize_and_validate_spec split: option.splits)
next
  assume a: "(\<forall>c\<in>set line. isspace c) \<and> budget h \<noteq> Remaining 0"
  then have none: "find (\<lambda>c. \<not> isalpha c \<and> \<not> isspace c) line = None"
    by (auto simp: find_None_iff)
  from a have toks: "spec_tokens line = []"
    by (simp add: spec_tokens_blank)
  from a mem_malloc_ok obtain h' where "mem_malloc h = (True, h')"
    by blast
  with none toks have tz: "tokenize_and_validate h (Some line) =
      Returned (\<lparr>ok = True, words_out = Some [], nwords_out = 0, message = None\<rparr>, h')"
    by (simp add: tokenize_and_validate_spec validate_tokens_def)
  then have "query_step h idx pageDirectory line = Returned (BlankLine, h')"
    by (simp add: query_step_def)
  with tz show "\<exists>h'. tokenize_and_validate h (Some line) =
             Returned (\<lparr>ok = True, words_out = Some [], nwords_out = 0, message = None\<rparr>, h') \<and>
           query_step h idx pageDirectory line = Returned (BlankLine, h')"
    by blast
qed


theorem tokenize_and_validate_characters_witness:
  "find (\<lambda>c. \<not> isalpha c \<and> \<not> isspace c) ''c@t'' = Some CHR ''@'' \<and>
   tokenize_and_validate \<lparr>cells = Map.empty, fresh = 0, budget = Unlimited\<rparr> (Some ''c@t'') =
     Returned (\<lparr>ok = False, words_out = None, nwords_out = 0,
                 message = Some (BadCharacter CHR ''@'')\<rparr>,
               \<lparr>cells = Map.empty, fresh = 0, budget = Unlimited\<rparr>) \<and>
   query_step \<lparr>cells = Map.empty, fresh = 0, budget = Unlimited\<rparr> None None ''c@t'' =
     Returned (Diagnostic (Some (BadCharacter CHR ''@'')),
               \<lparr>cells = Map.empty, fresh = 0, budget = Unlimited\<rparr>) \<and>
   (\<exists>t h'. tokenize_and_validate \<lparr>cells = Map.empty, fresh = 0, budget = Unlimited\<rparr>
              (Some ''Hello   World'') = Returned (t, h') \<and>
           words_out t = Some [''hello'', ''world''] \<and> nwords_out t = 2) \<and>
   (\<exists>h'. tokenize_and_validate \<lparr>cells = Map.empty, fresh = 0, budget = Unlimited\<rparr> (Some ''  '') =
           Returned (\<lparr>ok = True, words_out = Some [], nwords_out = 0, message = None\<rparr>, h') \<and>
         query_step \<lparr>cells = Map.empty, fresh = 0, budget = Unlimited\<rparr> None None ''  '' =
           Returned (BlankLine, h'))"
proof -
  let ?h = "\<lparr>cells = Map.empty, fresh = 0, budget = Unlimited\<rparr>"
  have bad: "\<exists>c\<in>set ''c@t''. \<not> isalpha c \<and> \<not> isspace c"
    by code_simp
  have first: "find (\<lambda>c. \<not> isalpha c \<and> \<not> isspace c) ''c@t'' = Some CHR ''@''"
    by code_simp
  have good: "(\<forall>c\<in>set ''Hello   World''. isalpha c \<or> isspace c) \<and> budget ?h \<noteq> Remaining 0"
    by code_simp
  have toks: "spec_tokens ''Hello   World'' = [''hello'', ''world'']"
    by code_simp
  have blank: "(\<forall>c\<in>set ''  ''. isspace c) \<and> budget ?h \<noteq> Remaining 0"
    by code_simp
  note c1 = tokenize_and_validate_characters [where line = "''c@t''" and h = ?h and idx = None
      and pageDirectory = None, THEN conjunct1, THEN mp, OF bad]
  then obtain c where c: "find (\<lambda>c. \<not> isalpha c \<and> \<not> isspace c) ''c@t'' = Some c"
    and tz: "tokenize_and_validate ?h (Some ''c@t'') =
       Returned (\<lparr>ok = False, words_out = None, nwords_out = 0, message = Some (BadCharacter c)\<rparr>, ?h)"
    and qs: "query_step ?h None None ''c@t'' = Returned (Diagnostic (Some (BadCharacter c)), ?h)"
    by blast
  from c first have "c = CHR ''@''"
    by (simp only: option.inject)
  with tz qs have 1: "tokenize_and_validate ?h (Some ''c@t'') =
       Returned (\<lparr>ok = False, words_out = None, nwords_out = 0,
                   message = Some (BadCharacter CHR ''@'')\<rparr>, ?h) \<and>
     query_step ?h None None ''c@t'' = Returned (Diagnostic (Some (BadCharacter CHR ''@'')), ?h)"
    by (simp only:)
  note c2 = tokenize_and_validate_characters [where line = "''Hello   World''" and h = ?h,
      THEN conjunct2, THEN conjunct1, THEN mp, OF good]
  then have 2: "\<exists>t h'. tokenize_and_validate ?h (Some ''Hello   World'') = Returned (t, h') \<and>
           words_out t = Some [''hello'', ''world''] \<and> nwords_out t = 2"
    unfolding toks by (simp add: numeral_2_eq_2)
  note c3 = tokenize_and_validate_characters [where line = "''  ''" and h = ?h and idx = None
      and pageDirectory = None, THEN conjunct2, THEN conjunct2, THEN mp, OF blank]
  then have 3: "\<exists>h'. tokenize_and_validate ?h (Some ''  '') =
           Returned (\<lparr>ok = True, words_out = Some [], nwords_out = 0, message = None\<rparr>, h') \<and>
         query_step ?h None None ''  '' = Returned (BlankLine, h')"
    .
  from first 1 2 3 show ?thesis
    by (intro conjI) (simp_all only: simp_thms)
qed


text \<open>
  Claim C9. For a line of letters and white space, the second pass stores at most
  \<open>len div 2 + 1\<close> words, so it never stores outside the array of \<open>len div 2 + 1\<close>
  slots: the result is never \<open>Overrun\<close>.
\<close>

theorem token_array_bound:
  "\<forall>c\<in>set line. isalpha c \<or> isspace c \<Longrightarrow>
     tokenize_and_validate h (Some line) \<noteq> Overrun \<and>
     (\<forall>t h'. tokenize_and_validate h (Some line) = Returned (t, h') \<longrightarrow>
        nwords_out t = length (spec_tokens line) \<and> nwords_out t \<le> length line div 2 + 1)"
proof -
  assume "\<forall>c\<in>set line. isalpha c \<or> isspace c"
  then have none: "find (\<lambda>c. \<not> isalpha c \<and> \<not> isspace c) line = None"
    by (auto simp: find_None_iff)
  show ?thesis
    using alpha_runs_count [of "map tolower line"]
    unfolding tokenize_and_validate_spec none
    by (auto simp: spec_tokens_def split: option.splits prod.splits bool.splits)
qed

theorem token_array_bound_witness:
  "tokenize_and_validate \<lparr>cells = Map.empty, fresh = 0, budget = Unlimited\<rparr> (Some ''a b c'') \<noteq> Overrun \<and>
   (\<exists>t h'. tokenize_and_validate \<lparr>cells = Map.empty, fresh = 0, budget = Unlimited\<rparr> (Some ''a b c'') =
        Returned (t, h') \<and> nwords_out t = 3 \<and> nwords_out t \<le> length ''a b c'' div 2 + 1)"
proof -
  let ?h = "\<lparr>cells = Map.empty, fresh = 0, budget = Unlimited\<rparr>"
  have hyp: "\<forall>c\<in>set ''a b c''. isalpha c \<or> isspace c"
    by code_simp
  have toks: "spec_tokens ''a b c'' = [''a'', ''b'', ''c'']"
    by code_simp
  have none: "find (\<lambda>c. \<not> isalpha c \<and> \<not> isspace c) ''a b c'' = None"
    by code_simp
  have v: "validate_tokens (Some [''a'', ''b'', ''c'']) = None"
    by code_simp
  have "\<exists>t h'. tokenize_and_validate ?h (Some ''a b c'') = Returned (t, h')"
    unfolding tokenize_and_validate_spec none toks v by (simp add: mem_malloc_def)
  then obtain t h' where tz: "tokenize_and_validate ?h (Some ''a b c'') = Returned (t, h')"
    by blast
  note inst = token_array_bound [OF hyp, of ?h]
  from inst tz have "nwords_out t = length (spec_tokens ''a b c'') \<and> nwords_out t \<le> length ''a b c'' div 2 + 1"
    by blast
  then have "nwords_out t = 3 \<and> nwords_out t \<le> length ''a b c'' div 2 + 1"
    unfolding toks by simp
  with tz inst show ?thesis
    by blast
qed

subsection \<open>Counter sets in the store\<close>


lemma nodes_get_count_in: "nodes_get ns d = count_in ns d"
  by (induction ns) (auto simp: count_in_def)

lemma nodes_update_map:
  "distinct (map fst ns) \<Longrightarrow>
     nodes_update ns d c = map (\<lambda>(k, v). if k = d then (k, c) else (k, v)) ns"
proof (induction ns)
  case Nil
  then show ?case by simp
next
  case (Cons n ns)
  obtain k v where n: "n = (k, v)" by (cases n)
  show ?case
  proof (cases "k = d")
    case True
    with Cons.prems n have "d \<notin> fst ` set ns" by auto
    then have "map (\<lambda>(k, v). if k = d then (k, c) else (k, v)) ns = ns"
      by (intro map_idI) force
    with True n show ?thesis by simp
  next
    case False
    with Cons n show ?thesis by simp
  qed
qed

lemma count_in_member: "distinct (map fst ns) \<Longrightarrow> (k, c) \<in> set ns \<Longrightarrow> count_in ns k = c"
  by (simp add: count_in_def)


lemma count_in_nonneg: "wf_counters ns \<Longrightarrow> 0 \<le> count_in ns k"
  by (auto simp: wf_counters_def count_in_def split: option.splits dest!: map_of_SomeD)

lemma keys_put: "fst ` set (put ns d c) = insert d (fst ` set ns)"
  by (force simp: put_def image_iff split: if_splits)

lemma map_fst_put:
  "map fst (put ns d c) = (if d \<in> fst ` set ns then map fst ns else map fst ns @ [d])"
  by (auto simp: put_def intro!: map_idI nth_equalityI split: prod.splits)

lemma wf_counters_put:
  "wf_counters ns \<Longrightarrow> 0 \<le> d \<Longrightarrow> 0 \<le> c \<Longrightarrow> wf_counters (put ns d c)"
  unfolding wf_counters_def
  by (auto simp: map_fst_put) (auto simp: put_def split: if_splits)



lemma counters_get_cell: "cells h r = Some ns \<Longrightarrow> counters_get h (Some r) k = count_in ns k"
  by (simp add: counters_get_def nodes_get_count_in)

lemma heap_budget_same: "budget h = b \<Longrightarrow> h\<lparr>budget := b\<rparr> = h"
  by simp

lemma counters_set_cell:
  assumes "budget h = Unlimited" "cells h r = Some ns" "distinct (map fst ns)" "0 \<le> k" "0 \<le> c"
  shows "counters_set h (Some r) k c = h\<lparr>cells := (cells h)(r \<mapsto> put ns k c)\<rparr>"
proof (cases "k \<in> fst ` set ns")
  case True
  with assms show ?thesis
    by (simp add: counters_set_def put_def nodes_update_map)
next
  case False
  with assms show ?thesis
    by (simp add: counters_set_def put_def)
qed

lemma heap_cell_same: "cells h r = Some ns \<Longrightarrow> h\<lparr>cells := (cells h)(r \<mapsto> ns)\<rparr> = h"
  by (simp add: fun_upd_idem)

lemma counters_set_count:
  assumes "budget h = Unlimited" "cells h r = Some ns" "distinct (map fst ns)" "0 \<le> k"
  shows "counters_set h (Some r) k c = h\<lparr>cells := (cells h)(r \<mapsto> set_count ns k c)\<rparr>"
proof (cases "c < 0")
  case True
  then show ?thesis
    using assms(2) by (simp add: counters_set_def set_count_def heap_cell_same)
next
  case False
  then show ?thesis
    using assms by (simp add: set_count_def counters_set_cell)
qed

lemma wf_counters_set_count:
  "wf_counters ns \<Longrightarrow> 0 \<le> d \<Longrightarrow> wf_counters (set_count ns d c)"
  by (simp add: set_count_def wf_counters_put)


lemma put_present:
  "d \<in> fst ` set ns \<Longrightarrow> put ns d c = map (\<lambda>(k, v). if k = d then (k, c) else (k, v)) ns"
  by (simp add: put_def)

lemma wf_counters_key: "wf_counters ns \<Longrightarrow> k \<in> fst ` set ns \<Longrightarrow> 0 \<le> k"
  by (auto simp: wf_counters_def)

lemma wf_counters_distinct: "wf_counters ns \<Longrightarrow> distinct (map fst ns)"
  by (simp add: wf_counters_def)

lemma iterate_nodes_inplace:
  fixes g :: "int \<Rightarrow> int \<Rightarrow> int"
  assumes f: "\<And>h' k c. Q h' \<Longrightarrow> f h' arg k c = (counters_set h' (Some r) k (g k c), arg)"
    and Qset: "\<And>h' ns'. Q h' \<Longrightarrow> Q (h'\<lparr>cells := (cells h')(r \<mapsto> ns')\<rparr>)"
    and g0: "\<And>k c. 0 \<le> c \<Longrightarrow> 0 \<le> g k c"
  shows "Q h \<Longrightarrow> budget h = Unlimited \<Longrightarrow> cells h r = Some ns \<Longrightarrow> wf_counters ns \<Longrightarrow>
     distinct ks \<Longrightarrow> set ks \<subseteq> fst ` set ns \<Longrightarrow>
     iterate_nodes (Some r) f ks h arg =
       (h\<lparr>cells := (cells h)(r \<mapsto> map (\<lambda>(k, c). if k \<in> set ks then (k, g k c) else (k, c)) ns)\<rparr>, arg)"
proof (induction ks arbitrary: h ns)
  case Nil
  have "map (\<lambda>(k, c). if k \<in> set [] then (k, g k c) else (k, c)) ns = ns"
    by simp
  with Nil.prems show ?case
    by (simp only: iterate_nodes.simps heap_cell_same)
next
  case (Cons k ks)
  define c where "c = count_in ns k"
  define ns1 where "ns1 = put ns k (g k c)"
  define h1 where "h1 = h\<lparr>cells := (cells h)(r \<mapsto> ns1)\<rparr>"
  have k_in: "k \<in> fst ` set ns" and k_notin: "k \<notin> set ks"
    using Cons.prems by auto
  have c0: "0 \<le> c"
    using Cons.prems by (simp add: c_def count_in_nonneg)
  have get: "counters_get h (Some r) k = c"
    using Cons.prems by (simp add: counters_get_cell c_def)
  have step: "f h arg k c = (h1, arg)"
    using Cons.prems k_in c0
    by (simp add: f h1_def ns1_def counters_set_cell wf_counters_key wf_counters_distinct g0)
  have "iterate_nodes (Some r) f ks h1 arg =
      (h1\<lparr>cells := (cells h1)(r \<mapsto> map (\<lambda>(k, c). if k \<in> set ks then (k, g k c) else (k, c)) ns1)\<rparr>, arg)"
  proof (rule Cons.IH)
    show "Q h1" unfolding h1_def by (rule Qset) (rule Cons.prems)
    show "budget h1 = Unlimited" using Cons.prems by (simp add: h1_def)
    show "cells h1 r = Some ns1" by (simp add: h1_def)
    show "wf_counters ns1"
      unfolding ns1_def
      using Cons.prems(4) wf_counters_key [OF Cons.prems(4) k_in] g0 [OF c0]
      by (rule wf_counters_put)
    show "distinct ks" using Cons.prems by simp
    show "set ks \<subseteq> fst ` set ns1" using Cons.prems by (auto simp: ns1_def keys_put)
  qed
  moreover have "map (\<lambda>(k, c). if k \<in> set ks then (k, g k c) else (k, c)) ns1 =
      map (\<lambda>(k', c). if k' \<in> set (k # ks) then (k', g k' c) else (k', c)) ns"
  proof -
    have "v = c" if "(k, v) \<in> set ns" for v
      using that Cons.prems by (simp add: c_def count_in_member wf_counters_distinct)
    then show ?thesis
      using k_notin by (auto simp: ns1_def put_present [OF k_in])
  qed
  moreover have "h1\<lparr>cells := (cells h1)(r \<mapsto> z)\<rparr> = h\<lparr>cells := (cells h)(r \<mapsto> z)\<rparr>" for z
    by (simp add: h1_def)
  moreover have "iterate_nodes (Some r) f (k # ks) h arg = iterate_nodes (Some r) f ks h1 arg"
    by (simp add: get step)
  ultimately show ?case
    by (simp only:)
qed

lemma iterate_nodes_into:
  fixes g :: "counters \<Rightarrow> int \<Rightarrow> int \<Rightarrow> int"
  assumes f: "\<And>h' k c acc. cells h' r = Some acc \<Longrightarrow>
      f h' arg k c = (counters_set h' (Some r) k (g acc k c), arg)"
    and rs: "r \<noteq> s"
    and src: "wf_counters src"
  shows "budget h = Unlimited \<Longrightarrow> cells h s = Some src \<Longrightarrow> cells h r = Some acc \<Longrightarrow>
     wf_counters acc \<Longrightarrow> set part \<subseteq> set src \<Longrightarrow>
     iterate_nodes (Some s) f (map fst part) h arg =
       (h\<lparr>cells := (cells h)(r \<mapsto> foldl (\<lambda>a (k, c). set_count a k (g a k c)) acc part)\<rparr>, arg)"
proof (induction part arbitrary: h acc)
  case Nil
  then show ?case
    by (simp only: list.map foldl.simps iterate_nodes.simps heap_cell_same)
next
  case (Cons n part)
  obtain k c where n: "n = (k, c)" by (cases n)
  define acc1 where "acc1 = set_count acc k (g acc k c)"
  define h1 where "h1 = h\<lparr>cells := (cells h)(r \<mapsto> acc1)\<rparr>"
  have mem: "(k, c) \<in> set src"
    using Cons.prems n by simp
  then have k0: "0 \<le> k" and c0: "0 \<le> c"
    using src by (auto simp: wf_counters_def)
  have get: "counters_get h (Some s) k = c"
    using Cons.prems mem src by (simp add: counters_get_cell count_in_member wf_counters_distinct)
  have step: "f h arg k c = (h1, arg)"
    using Cons.prems k0
    by (simp add: f h1_def acc1_def counters_set_count wf_counters_distinct)
  have "iterate_nodes (Some s) f (map fst part) h1 arg =
      (h1\<lparr>cells := (cells h1)(r \<mapsto> foldl (\<lambda>a (k, c). set_count a k (g a k c)) acc1 part)\<rparr>, arg)"
  proof (rule Cons.IH)
    show "budget h1 = Unlimited" using Cons.prems by (simp add: h1_def)
    show "cells h1 s = Some src" using Cons.prems rs by (simp add: h1_def)
    show "cells h1 r = Some acc1" by (simp add: h1_def)
    show "wf_counters acc1"
      unfolding acc1_def
      using Cons.prems(4) k0
      by (rule wf_counters_set_count)
    show "set part \<subseteq> set src" using Cons.prems by simp
  qed
  moreover have "h1\<lparr>cells := (cells h1)(r \<mapsto> z)\<rparr> = h\<lparr>cells := (cells h)(r \<mapsto> z)\<rparr>" for z
    by (simp add: h1_def)
  moreover have "iterate_nodes (Some s) f (map fst (n # part)) h arg =
      iterate_nodes (Some s) f (map fst part) h1 arg"
    by (simp add: n get step)
  moreover have "foldl (\<lambda>a (k, c). set_count a k (g a k c)) acc (n # part) =
      foldl (\<lambda>a (k, c). set_count a k (g a k c)) acc1 part"
    by (simp add: n acc1_def)
  ultimately show ?case
    by (simp only:)
qed

lemma foldl_put_append:
  "distinct (map fst (acc @ part)) \<Longrightarrow> foldl (\<lambda>a (k, c). put a k c) acc part = acc @ part"
proof (induction part arbitrary: acc)
  case Nil
  then show ?case by simp
next
  case (Cons n part)
  obtain k c where n: "n = (k, c)" by (cases n)
  with Cons.prems have "k \<notin> fst ` set acc" by auto
  then have "put acc k c = acc @ [(k, c)]"
    by (simp add: put_def)
  moreover from Cons.prems n have "distinct (map fst ((acc @ [(k, c)]) @ part))" by simp
  ultimately show ?case
    using Cons.IH [of "acc @ [(k, c)]"] n by simp
qed

lemma foldl_set_count_nonneg:
  "\<forall>(k, c)\<in>set part. 0 \<le> c \<Longrightarrow>
     foldl (\<lambda>a (k, c). set_count a k c) acc part = foldl (\<lambda>a (k, c). put a k c) acc part"
  by (induction part arbitrary: acc) (auto simp: set_count_def)

lemma copy_into_fresh:
  assumes "budget h = Unlimited" "cells h s = Some src" "wf_counters src" "cells h r = Some []" "r \<noteq> s"
  shows "fst (counters_iterate h (Some s) (Some r) copy_helper) = h\<lparr>cells := (cells h)(r \<mapsto> src)\<rparr>"
proof -
  have "iterate_nodes (Some s) copy_helper (map fst src) h (Some r) =
      (h\<lparr>cells := (cells h)(r \<mapsto> foldl (\<lambda>a (k, c). set_count a k ((\<lambda>a k c. c) a k c)) [] src)\<rparr>, Some r)"
    using assms
    by (intro iterate_nodes_into [where src = src]) (simp_all add: copy_helper_def wf_counters_def)
  moreover have "foldl (\<lambda>a (k, c). set_count a k c) [] src = src"
    using foldl_put_append [of "[]" src] foldl_set_count_nonneg [of src "[]"] assms(3)
    by (auto simp: wf_counters_def)
  ultimately show ?thesis
    using assms by (simp add: counters_iterate_def)
qed

lemma zero_in_place:
  assumes "budget h = Unlimited" "cells h r = Some ns" "wf_counters ns"
  shows "fst (counters_iterate h (Some r) (Some r) zero_helper) =
     h\<lparr>cells := (cells h)(r \<mapsto> and_update ns None)\<rparr>"
proof -
  have it: "iterate_nodes (Some r) zero_helper (map fst ns) h (Some r) =
      (h\<lparr>cells := (cells h)(r \<mapsto> map (\<lambda>(k, c). if k \<in> set (map fst ns) then (k, (\<lambda>k c. 0) k c) else (k, c)) ns)\<rparr>, Some r)"
    using assms
    by (intro iterate_nodes_inplace [where Q = "\<lambda>h. True"])
      (simp_all add: zero_helper_def wf_counters_def)
  have eq: "map (\<lambda>(k, c). if k \<in> set (map fst ns) then (k, 0) else (k, c)) ns = and_update ns None"
    by (force simp: image_iff)
  show ?thesis
    unfolding counters_iterate_def using assms(2) by (simp add: it [unfolded eq])
qed

lemma counters_intersect_cell:
  assumes "budget h = Unlimited" "cells h r = Some ns" "wf_counters ns"
    "cells h s = Some post" "wf_counters post" "r \<noteq> s"
  shows "counters_intersect h (Some r) (Some s) = h\<lparr>cells := (cells h)(r \<mapsto> and_update ns (Some post))\<rparr>"
proof -
  let ?pair = "\<lparr>ctrs_a = Some r, ctrs_b = Some s\<rparr>"
  have it: "iterate_nodes (Some r) intersect_helper (map fst ns) h ?pair =
      (h\<lparr>cells := (cells h)(r \<mapsto> map (\<lambda>(k, c). if k \<in> set (map fst ns)
            then (k, (\<lambda>k c. min c (count_in post k)) k c) else (k, c)) ns)\<rparr>, ?pair)"
  proof (rule iterate_nodes_inplace [where Q = "\<lambda>h. cells h s = Some post"])
    fix h' :: heap and k c :: int
    assume "cells h' s = Some post"
    then show "intersect_helper h' ?pair k c = (counters_set h' (Some r) k (min c (count_in post k)), ?pair)"
      by (simp add: intersect_helper_def counters_get_cell Let_def min_def)
  next
    fix h' :: heap and ns' :: counters
    assume "cells h' s = Some post"
    with assms(6) show "cells (h'\<lparr>cells := (cells h')(r \<mapsto> ns')\<rparr>) s = Some post"
      by simp
  next
    fix k c :: int
    assume "0 \<le> c"
    with count_in_nonneg [OF assms(5), of k] show "0 \<le> min c (count_in post k)"
      by simp
  qed (use assms in \<open>simp_all add: wf_counters_def\<close>)
  have eq: "map (\<lambda>(k, c). if k \<in> set (map fst ns) then (k, min c (count_in post k)) else (k, c)) ns =
      and_update ns (Some post)"
    by (force simp: image_iff)
  show ?thesis
    unfolding counters_intersect_def counters_iterate_def using assms(2) by (simp add: it [unfolded eq])
qed

lemma counters_union_cell:
  assumes "budget h = Unlimited" "cells h r = Some acc" "wf_counters acc"
    "cells h s = Some src" "wf_counters src" "r \<noteq> s"
  shows "counters_union h (Some r) (Some s) = h\<lparr>cells := (cells h)(r \<mapsto> union_counts acc src)\<rparr>"
proof -
  have "iterate_nodes (Some s) union_helper (map fst src) h (Some r) =
      (h\<lparr>cells := (cells h)(r \<mapsto> foldl (\<lambda>a (k, c). set_count a k ((\<lambda>a k c. c_int (count_in a k + c)) a k c)) acc src)\<rparr>, Some r)"
  proof (rule iterate_nodes_into [where src = src])
    fix h' :: heap and k c :: int and acc' :: counters
    assume "cells h' r = Some acc'"
    then show "union_helper h' (Some r) k c =
        (counters_set h' (Some r) k (c_int (count_in acc' k + c)), Some r)"
      by (simp add: union_helper_def counters_get_cell Let_def)
  qed (use assms in simp_all)
  then show ?thesis
    using assms by (simp add: counters_union_def counters_iterate_def union_counts_def)
qed

lemma wf_counters_and_update: "wf_counters acc \<Longrightarrow> (\<And>p. post = Some p \<Longrightarrow> wf_counters p) \<Longrightarrow> wf_counters (and_update acc post)"
proof (cases post)
  case None
  assume "wf_counters acc"
  with None show ?thesis
    by (auto simp: wf_counters_def comp_def case_prod_unfold)
next
  case (Some p)
  assume acc: "wf_counters acc" and "\<And>p. post = Some p \<Longrightarrow> wf_counters p"
  with Some have "wf_counters p" by simp
  from count_in_nonneg [OF this] acc Some show ?thesis
    by (auto simp: wf_counters_def comp_def case_prod_unfold)
qed

lemma wf_counters_union_counts:
  "wf_counters res \<Longrightarrow> wf_counters grp \<Longrightarrow> wf_counters (union_counts res grp)"
proof -
  have "wf_counters res \<Longrightarrow> (\<forall>(k, c)\<in>set part. 0 \<le> k \<and> 0 \<le> c) \<Longrightarrow>
      wf_counters (foldl (\<lambda>r (d, c). set_count r d (c_int (count_in r d + c))) res part)" for part
  proof (induction part arbitrary: res)
    case Nil
    then show ?case by simp
  next
    case (Cons n part)
    obtain k c where n: "n = (k, c)" by (cases n)
    with Cons.prems have "wf_counters (set_count res k (c_int (count_in res k + c)))"
      by (intro wf_counters_set_count) auto
    with Cons n show ?case by simp
  qed
  note aux = this
  assume a: "wf_counters res" and b: "wf_counters grp"
  from b have "\<forall>(k, c)\<in>set grp. 0 \<le> k \<and> 0 \<le> c"
    by (simp add: wf_counters_def)
  from aux [OF a this] show "wf_counters (union_counts res grp)"
    by (simp add: union_counts_def)
qed

lemma postings_update:
  "r \<notin> ran idx \<Longrightarrow> postings (h\<lparr>cells := (cells h)(r \<mapsto> x)\<rparr>) idx = postings h idx"
  by (auto simp: postings_def ran_def split: option.splits)

lemma wf_index_update:
  "r \<notin> ran idx \<Longrightarrow> wf_index h idx \<Longrightarrow> wf_index (h\<lparr>cells := (cells h)(r \<mapsto> x)\<rparr>) idx"
  by (auto simp: wf_index_def ran_def)

lemma wf_index_posting:
  "wf_index h idx \<Longrightarrow> idx w = Some s \<Longrightarrow>
     \<exists>post. cells h s = Some post \<and> wf_counters post \<and> postings h idx w = Some post"
  by (auto simp: wf_index_def postings_def)

lemma fresh_not_indexed: "wf_heap h \<Longrightarrow> wf_index h idx \<Longrightarrow> fresh h \<le> r \<Longrightarrow> r \<notin> ran idx"
  by (fastforce simp: wf_heap_def wf_index_def ran_def)

lemma and_step_cell:
  assumes "budget h = Unlimited" "wf_index h idx" "cells h r = Some acc" "wf_counters acc" "r \<notin> ran idx"
  shows "(if index_find (Some idx) w = None
          then fst (counters_iterate h (Some r) (Some r) zero_helper)
          else counters_intersect h (Some r) (index_find (Some idx) w)) =
         h\<lparr>cells := (cells h)(r \<mapsto> and_update acc (postings h idx w))\<rparr>"
proof (cases "idx w")
  case None
  with assms show ?thesis
    by (simp add: index_find_def zero_in_place postings_def)
next
  case (Some s)
  from wf_index_posting [OF assms(2) Some] obtain post where
    post: "cells h s = Some post" "wf_counters post" "postings h idx w = Some post"
    by blast
  from Some assms(5) have "r \<noteq> s"
    by (auto simp: ran_def)
  with assms post Some show ?thesis
    by (simp add: index_find_def counters_intersect_cell)
qed

lemma wf_postings: "wf_index h idx \<Longrightarrow> postings h idx w = Some p \<Longrightarrow> wf_counters p"
  by (fastforce simp: postings_def wf_index_def split: option.splits)

lemma wf_counters_and_update_postings:
  "wf_index h idx \<Longrightarrow> wf_counters acc \<Longrightarrow> wf_counters (and_update acc (postings h idx w))"
  by (rule wf_counters_and_update) (auto dest: wf_postings)

subsection \<open>Query evaluation\<close>

lemma andsequence_loop_rest:
  assumes "budget h = Unlimited" "wf_index h idx" "cells h r = Some acc" "wf_counters acc"
    "r \<notin> ran idx" "i \<le> length words"
  shows "andsequence_loop (Some idx) words i (Some r) h =
     (Some r, i + length (takeWhile (\<lambda>w. w \<noteq> ''or'') (drop i words)),
      h\<lparr>cells := (cells h)(r \<mapsto> foldl and_update acc
           (map (postings h idx)
              (filter (\<lambda>w. w \<noteq> ''and'') (takeWhile (\<lambda>w. w \<noteq> ''or'') (drop i words)))))\<rparr>)"
  using assms
proof (induction "length words - i" arbitrary: i h acc rule: less_induct)
  case less
  show ?case
  proof (cases "i < length words \<and> words ! i \<noteq> ''or''")
    case False
    then have "takeWhile (\<lambda>w. w \<noteq> ''or'') (drop i words) = []"
      using less.prems by (cases "i < length words") (auto simp: Cons_nth_drop_Suc [symmetric])
    with False less.prems show ?thesis
      by (simp add: andsequence_loop_stop heap_cell_same)
  next
    case True
    then have lt: "i < length words" and nor: "words ! i \<noteq> ''or''"
      by simp_all
    have drop: "drop i words = words ! i # drop (Suc i) words"
      using lt by (simp add: Cons_nth_drop_Suc)
    have smaller: "length words - Suc i < length words - i"
      using lt by simp
    show ?thesis
    proof (cases "words ! i = ''and''")
      case True
      have "andsequence_loop (Some idx) words i (Some r) h =
          andsequence_loop (Some idx) words (Suc i) (Some r) h"
        using lt True by (simp add: andsequence_loop_and)
      also have "\<dots> = (Some r, Suc i + length (takeWhile (\<lambda>w. w \<noteq> ''or'') (drop (Suc i) words)),
          h\<lparr>cells := (cells h)(r \<mapsto> foldl and_update acc
           (map (postings h idx)
              (filter (\<lambda>w. w \<noteq> ''and'') (takeWhile (\<lambda>w. w \<noteq> ''or'') (drop (Suc i) words)))))\<rparr>)"
        using less.prems lt by (intro less.hyps [OF smaller]) simp_all
      finally show ?thesis
        using True by (simp add: drop)
    next
      case False
      define w where "w = words ! i"
      define acc1 where "acc1 = and_update acc (postings h idx w)"
      define h1 where "h1 = h\<lparr>cells := (cells h)(r \<mapsto> acc1)\<rparr>"
      have "andsequence_loop (Some idx) words i (Some r) h =
          andsequence_loop (Some idx) words (Suc i) (Some r) h1"
        using lt nor False less.prems
        by (simp add: andsequence_loop_next and_step_cell h1_def acc1_def w_def)
      also have "\<dots> = (Some r, Suc i + length (takeWhile (\<lambda>w. w \<noteq> ''or'') (drop (Suc i) words)),
          h1\<lparr>cells := (cells h1)(r \<mapsto> foldl and_update acc1
           (map (postings h1 idx)
              (filter (\<lambda>w. w \<noteq> ''and'') (takeWhile (\<lambda>w. w \<noteq> ''or'') (drop (Suc i) words)))))\<rparr>)"
      proof (rule less.hyps [OF smaller])
        show "budget h1 = Unlimited" using less.prems by (simp add: h1_def)
        show "wf_index h1 idx" unfolding h1_def using less.prems by (intro wf_index_update)
        show "cells h1 r = Some acc1" by (simp add: h1_def)
        show "wf_counters acc1"
          unfolding acc1_def using less.prems by (intro wf_counters_and_update_postings)
        show "r \<notin> ran idx" by (rule less.prems)
        show "Suc i \<le> length words" using lt by simp
      qed
      also have "postings h1 idx = postings h idx"
        unfolding h1_def using less.prems by (intro postings_update)
      also have "h1\<lparr>cells := (cells h1)(r \<mapsto> z)\<rparr> = h\<lparr>cells := (cells h)(r \<mapsto> z)\<rparr>" for z
        by (simp add: h1_def)
      finally show ?thesis
        using False nor by (simp add: drop acc1_def w_def)
    qed
  qed
qed

lemma counters_new_unlimited:
  "budget h = Unlimited \<Longrightarrow>
     counters_new h = (Some (fresh h), h\<lparr>cells := (cells h)(fresh h \<mapsto> []), fresh := fresh h + 1\<rparr>)"
  by (simp add: counters_new_def)

lemma postings_cong: "cells h' = cells h \<Longrightarrow> postings h' idx = postings h idx"
  by (rule ext) (simp add: postings_def split: option.splits)

lemma wf_index_cong: "cells h' = cells h \<Longrightarrow> wf_index h' idx = wf_index h idx"
  by (simp add: wf_index_def)

lemma and_group_Nil: "and_group look [] = []"
  by (simp add: and_group_def)

lemma and_group_Cons:
  "and_group look (t # ts) = foldl and_update (case look t of None \<Rightarrow> [] | Some p \<Rightarrow> p) (map look ts)"
  by (simp add: and_group_def)

lemma andsequence_loop_first_cell:
  assumes "budget h = Unlimited" "wf_heap h" "wf_index h idx" "i \<le> length words"
  shows "andsequence_loop (Some idx) words i None h =
     (let terms = filter (\<lambda>w. w \<noteq> ''and'') (takeWhile (\<lambda>w. w \<noteq> ''or'') (drop i words));
          e = i + length (takeWhile (\<lambda>w. w \<noteq> ''or'') (drop i words))
      in if terms = [] then (None, e, h)
         else (Some (fresh h), e,
               h\<lparr>cells := (cells h)(fresh h \<mapsto> and_group (postings h idx) terms),
                 fresh := fresh h + 1\<rparr>))"
  using assms
proof (induction "length words - i" arbitrary: i rule: less_induct)
  case less
  show ?case
  proof (cases "i < length words \<and> words ! i \<noteq> ''or''")
    case False
    then have "takeWhile (\<lambda>w. w \<noteq> ''or'') (drop i words) = []"
      using less.prems by (cases "i < length words") (auto simp: Cons_nth_drop_Suc [symmetric])
    with False show ?thesis
      by (simp add: andsequence_loop_stop)
  next
    case True
    then have lt: "i < length words" and nor: "words ! i \<noteq> ''or''"
      by simp_all
    have drop: "drop i words = words ! i # drop (Suc i) words"
      using lt by (simp add: Cons_nth_drop_Suc)
    have smaller: "length words - Suc i < length words - i"
      using lt by simp
    show ?thesis
    proof (cases "words ! i = ''and''")
      case True
      have "andsequence_loop (Some idx) words i None h =
          andsequence_loop (Some idx) words (Suc i) None h"
        using lt True by (simp add: andsequence_loop_and)
      also note less.hyps [OF smaller less.prems(1-3)]
      finally show ?thesis
        using True lt by (simp add: drop Let_def)
    next
      case False
      define w where "w = words ! i"
      define r where "r = fresh h"
      define acc where "acc = (case postings h idx w of None \<Rightarrow> [] | Some p \<Rightarrow> p)"
      define h0 where "h0 = h\<lparr>cells := (cells h)(r \<mapsto> []), fresh := fresh h + 1\<rparr>"
      define h2 where "h2 = h\<lparr>cells := (cells h)(r \<mapsto> acc), fresh := fresh h + 1\<rparr>"
      define rest where "rest = filter (\<lambda>w. w \<noteq> ''and'') (takeWhile (\<lambda>w. w \<noteq> ''or'') (drop (Suc i) words))"
      have new: "counters_new h = (Some r, h0)"
        using less.prems by (simp add: counters_new_unlimited r_def h0_def)
      have r_out: "r \<notin> ran idx"
        using fresh_not_indexed [OF less.prems(2,3), of r] by (simp add: r_def)
      have idx0: "wf_index h0 idx"
      proof -
        have "wf_index (h\<lparr>cells := (cells h)(r \<mapsto> [])\<rparr>) idx"
          using r_out less.prems by (intro wf_index_update)
        then show ?thesis by (simp add: wf_index_def h0_def)
      qed
      have copy: "(if index_find (Some idx) w \<noteq> None
          then fst (counters_iterate h0 (index_find (Some idx) w) (Some r) copy_helper)
          else h0) = h2"
      proof (cases "idx w")
        case None
        then show ?thesis
          by (simp add: index_find_def h0_def h2_def acc_def postings_def)
      next
        case (Some s)
        from wf_index_posting [OF less.prems(3) Some] obtain post where
          post: "cells h s = Some post" "wf_counters post" "postings h idx w = Some post"
          by blast
        from Some r_out have rs: "r \<noteq> s"
          by (auto simp: ran_def)
        have "fst (counters_iterate h0 (Some s) (Some r) copy_helper) = h0\<lparr>cells := (cells h0)(r \<mapsto> post)\<rparr>"
          using less.prems post rs by (intro copy_into_fresh) (simp_all add: h0_def)
        with Some post show ?thesis
          by (simp add: index_find_def h0_def h2_def acc_def)
      qed
      have "andsequence_loop (Some idx) words i None h =
          andsequence_loop (Some idx) words (i + 1) (Some r) h2"
        unfolding andsequence_loop_first [OF lt nor False] new fst_conv snd_conv copy [unfolded w_def]
        by (rule refl)
      then have "andsequence_loop (Some idx) words i None h =
          andsequence_loop (Some idx) words (Suc i) (Some r) h2"
        by simp
      also have "\<dots> = (Some r, Suc i + length (takeWhile (\<lambda>w. w \<noteq> ''or'') (drop (Suc i) words)),
          h2\<lparr>cells := (cells h2)(r \<mapsto> foldl and_update acc (map (postings h2 idx) rest))\<rparr>)"
        unfolding rest_def
      proof (rule andsequence_loop_rest)
        show "budget h2 = Unlimited" using less.prems by (simp add: h2_def)
        have "wf_index (h\<lparr>cells := (cells h)(r \<mapsto> acc)\<rparr>) idx"
          using r_out less.prems by (intro wf_index_update)
        then show "wf_index h2 idx" by (simp add: wf_index_def h2_def)
        show "cells h2 r = Some acc" by (simp add: h2_def)
        show "wf_counters acc"
        proof (cases "postings h idx w")
          case None
          then show ?thesis by (simp add: acc_def wf_counters_def)
        next
          case (Some p)
          with wf_postings [OF less.prems(3) Some] show ?thesis by (simp add: acc_def)
        qed
        show "r \<notin> ran idx" by (rule r_out)
        show "Suc i \<le> length words" using lt by simp
      qed
      also have "postings h2 idx = postings h idx"
      proof -
        have "postings (h\<lparr>cells := (cells h)(r \<mapsto> acc)\<rparr>) idx = postings h idx"
          using r_out by (intro postings_update)
        moreover have "postings h2 idx = postings (h\<lparr>cells := (cells h)(r \<mapsto> acc)\<rparr>) idx"
          by (rule postings_cong) (simp add: h2_def)
        ultimately show ?thesis by simp
      qed
      also have "h2\<lparr>cells := (cells h2)(r \<mapsto> z)\<rparr> = h\<lparr>cells := (cells h)(r \<mapsto> z), fresh := fresh h + 1\<rparr>" for z
        by (simp add: h2_def)
      finally show ?thesis
        using False nor
        by (simp add: drop Let_def rest_def [symmetric] and_group_Cons acc_def w_def r_def)
    qed
  qed
qed

lemma evaluate_andsequence_cell:
  assumes "budget h = Unlimited" "wf_heap h" "wf_index h idx" "i \<le> length words"
  shows "evaluate_andsequence h (Some idx) words i =
     (Some (fresh h), i + length (takeWhile (\<lambda>w. w \<noteq> ''or'') (drop i words)),
      h\<lparr>cells := (cells h)(fresh h \<mapsto> and_group (postings h idx)
            (filter (\<lambda>w. w \<noteq> ''and'') (takeWhile (\<lambda>w. w \<noteq> ''or'') (drop i words)))),
        fresh := fresh h + 1\<rparr>)"
  unfolding evaluate_andsequence_def andsequence_loop_first_cell [OF assms]
  using assms(1) by (simp add: Let_def counters_new_unlimited and_group_Nil)

lemma or_combine_Nil: "or_combine look [] res = res"
  by (subst or_combine.simps) simp

lemma or_combine_step:
  "ws \<noteq> [] \<Longrightarrow>
     or_combine look ws res =
       or_combine look (drop (length (takeWhile (\<lambda>w. w \<noteq> ''or'') ws) + 1) ws)
         (Some (case res of
                  None \<Rightarrow> and_group look (filter (\<lambda>w. w \<noteq> ''and'') (takeWhile (\<lambda>w. w \<noteq> ''or'') ws))
                | Some r \<Rightarrow> union_counts r (and_group look (filter (\<lambda>w. w \<noteq> ''and'') (takeWhile (\<lambda>w. w \<noteq> ''or'') ws)))))"
  by (subst or_combine.simps) (simp add: Let_def)

lemma postings_agree:
  "(\<And>a. a \<in> ran idx \<Longrightarrow> cells h' a = cells h a) \<Longrightarrow> postings h' idx = postings h idx"
  by (rule ext) (auto simp: postings_def ran_def split: option.splits)

lemma wf_index_agree:
  "(\<And>a. a \<in> ran idx \<Longrightarrow> cells h' a = cells h a) \<Longrightarrow> wf_index h idx \<Longrightarrow> wf_index h' idx"
  unfolding wf_index_def ran_def by fastforce

lemma wf_counters_Nil: "wf_counters []"
  by (simp add: wf_counters_def)

lemma wf_counters_foldl_and_update:
  "wf_counters acc \<Longrightarrow> (\<forall>p. Some p \<in> set posts \<longrightarrow> wf_counters p) \<Longrightarrow>
     wf_counters (foldl and_update acc posts)"
proof (induction posts arbitrary: acc)
  case Nil
  then show ?case by simp
next
  case (Cons post posts)
  have "wf_counters (and_update acc post)"
    using Cons.prems by (intro wf_counters_and_update) auto
  with Cons show ?case by simp
qed

lemma wf_counters_and_group:
  "wf_index h idx \<Longrightarrow> wf_counters (and_group (postings h idx) terms)"
proof (cases terms)
  case Nil
  then show ?thesis by (simp add: and_group_Nil wf_counters_Nil)
next
  case (Cons t ts)
  assume idx: "wf_index h idx"
  have "wf_counters (case postings h idx t of None \<Rightarrow> [] | Some p \<Rightarrow> p)"
    using idx by (auto simp: wf_counters_Nil split: option.splits dest: wf_postings)
  moreover have "\<forall>p. Some p \<in> set (map (postings h idx) ts) \<longrightarrow> wf_counters p"
    using idx by (auto dest: wf_postings [OF _ sym])
  ultimately show ?thesis
    unfolding Cons and_group_Cons by (rule wf_counters_foldl_and_update)
qed

lemma group_end_cases:
  assumes "i \<le> length words"
  defines "e \<equiv> i + length (takeWhile (\<lambda>w. w \<noteq> ''or'') (drop i words))"
  shows "e \<le> length words"
    and "e < length words \<Longrightarrow> words ! e = ''or''"
    and "drop (if e < length words \<and> words ! e = ''or'' then e + 1 else e) words =
         drop (length (takeWhile (\<lambda>w. w \<noteq> ''or'') (drop i words)) + 1) (drop i words)"
proof -
  let ?g = "takeWhile (\<lambda>w. w \<noteq> ''or'') (drop i words)"
  have len: "length ?g \<le> length (drop i words)"
    by (rule length_takeWhile_le)
  then show le: "e \<le> length words"
    using assms by simp
  show or: "words ! e = ''or''" if "e < length words"
  proof -
    from that have "length ?g < length (drop i words)"
      using assms by simp
    from nth_length_takeWhile [OF this] show ?thesis
      using that assms by (simp add: add.commute)
  qed
  show "drop (if e < length words \<and> words ! e = ''or'' then e + 1 else e) words =
         drop (length ?g + 1) (drop i words)"
  proof (cases "e < length words")
    case True
    with or show ?thesis
      by (simp add: e_def add.commute)
  next
    case False
    with le have "e = length words" by simp
    then show ?thesis
      using assms by (simp add: e_def)
  qed
qed


lemma query_or_loop_merge:
  assumes "budget h = Unlimited" "wf_heap h" "wf_index h idx" "cells h q = Some res"
    "wf_counters res" "q \<notin> ran idx" "i \<le> length words"
  shows "\<exists>n. query_or_loop (Some idx) words i (Some q) True h =
     (Some q, h\<lparr>cells := (cells h)(q \<mapsto> the (or_combine (postings h idx) (drop i words) (Some res))),
                fresh := fresh h + n\<rparr>)"
  using assms
proof (induction "length words - i" arbitrary: i h res rule: less_induct)
  case less
  show ?case
  proof (cases "i < length words")
    case False
    then have "query_or_loop (Some idx) words i (Some q) True h = (Some q, h)"
      by (subst query_or_loop.simps) simp
    moreover have "h\<lparr>cells := (cells h)(q \<mapsto> res), fresh := fresh h + 0\<rparr> = h"
      using less.prems by (simp add: fun_upd_idem)
    ultimately show ?thesis
      using False less.prems by (intro exI [of _ 0]) (simp add: or_combine_Nil)
  next
    case True
    define g where "g = takeWhile (\<lambda>w. w \<noteq> ''or'') (drop i words)"
    define grp where "grp = and_group (postings h idx) (filter (\<lambda>w. w \<noteq> ''and'') g)"
    define a where "a = fresh h"
    define e where "e = i + length g"
    define i' where "i' = (if e < length words \<and> words ! e = ''or'' then e + 1 else e)"
    define m where "m = union_counts res grp"
    define h1 where "h1 = h\<lparr>cells := (cells h)(a \<mapsto> grp), fresh := fresh h + 1\<rparr>"
    define h2 where "h2 = h\<lparr>cells := (cells h)(q \<mapsto> m), fresh := fresh h + 1\<rparr>"
    have ea: "evaluate_andsequence h (Some idx) words i = (Some a, e, h1)"
      using less.prems evaluate_andsequence_cell [of h idx i words]
      by (simp add: a_def e_def h1_def grp_def g_def)
    have a_none: "cells h a = None"
      using less.prems(2) by (simp add: wf_heap_def a_def)
    with less.prems have qa: "q \<noteq> a"
      by auto
    have wf_grp: "wf_counters grp"
      unfolding grp_def using less.prems by (intro wf_counters_and_group)
    have "counters_union h1 (Some q) (Some a) = h1\<lparr>cells := (cells h1)(q \<mapsto> union_counts res grp)\<rparr>"
      using less.prems qa wf_grp by (intro counters_union_cell) (simp_all add: h1_def)
    then have del: "counters_delete (counters_union h1 (Some q) (Some a)) (Some a) = h2"
      using qa a_none
      by (simp add: counters_delete_def h1_def h2_def m_def fun_upd_twist [of q a] fun_upd_idem)
    have e_le: "e \<le> length words"
      unfolding e_def g_def by (rule group_end_cases(1) [OF less.prems(7)])
    have e_or: "e < length words \<Longrightarrow> words ! e = ''or''"
      unfolding e_def g_def by (rule group_end_cases(2) [OF less.prems(7)])
    have drop': "drop i' words = drop (length g + 1) (drop i words)"
      unfolding i'_def e_def g_def by (rule group_end_cases(3) [OF less.prems(7)])
    have i'_le: "i' \<le> length words"
      using e_le by (simp add: i'_def)
    have i'_gt: "i < i'"
    proof (cases "e = i")
      case True
      with \<open>i < length words\<close> e_or show ?thesis by (simp add: i'_def)
    next
      case False
      then show ?thesis by (simp add: i'_def e_def)
    qed
    have unfold: "query_or_loop (Some idx) words i (Some q) True h =
        query_or_loop (Some idx) words i' (Some q) True h2"
      using True by (subst query_or_loop.simps) (simp add: ea del i'_def Let_def)
    have agree: "cells h2 x = cells h x" if "x \<in> ran idx" for x
      using that less.prems(6) by (auto simp: h2_def)
    have "\<exists>n. query_or_loop (Some idx) words i' (Some q) True h2 =
       (Some q, h2\<lparr>cells := (cells h2)(q \<mapsto> the (or_combine (postings h2 idx) (drop i' words) (Some m))),
                  fresh := fresh h2 + n\<rparr>)"
    proof (rule less.hyps)
      show "length words - i' < length words - i"
        using i'_gt i'_le \<open>i < length words\<close> by simp
      show "budget h2 = Unlimited" using less.prems by (simp add: h2_def)
      have "q < fresh h"
      proof (rule ccontr)
        assume "\<not> q < fresh h"
        with less.prems(2) have "cells h q = None" by (simp add: wf_heap_def)
        with less.prems(4) show False by simp
      qed
      then show "wf_heap h2" using less.prems(2) by (auto simp: wf_heap_def h2_def)
      show "wf_index h2 idx" using agree less.prems(3) by (rule wf_index_agree)
      show "cells h2 q = Some m" by (simp add: h2_def)
      show "wf_counters m" unfolding m_def using less.prems wf_grp by (intro wf_counters_union_counts)
      show "q \<notin> ran idx" by (rule less.prems)
      show "i' \<le> length words" by (rule i'_le)
    qed
    then obtain n where
      rec: "query_or_loop (Some idx) words i' (Some q) True h2 =
       (Some q, h2\<lparr>cells := (cells h2)(q \<mapsto> the (or_combine (postings h2 idx) (drop i' words) (Some m))),
                  fresh := fresh h2 + n\<rparr>)"
      by blast
    have post: "postings h2 idx = postings h idx"
      using agree by (rule postings_agree)
    have comb: "or_combine (postings h idx) (drop i words) (Some res) =
        or_combine (postings h idx) (drop i' words) (Some m)"
      using True by (subst or_combine_step) (simp_all add: drop' g_def m_def grp_def)
    have "h2\<lparr>cells := (cells h2)(q \<mapsto> z), fresh := fresh h2 + n\<rparr> =
        h\<lparr>cells := (cells h)(q \<mapsto> z), fresh := fresh h + (n + 1)\<rparr>" for z
      by (simp add: h2_def)
    with unfold rec post comb show ?thesis
      by (intro exI [of _ "n + 1"]) (simp only:)
  qed
qed

lemma or_combine_Some: "or_combine look ws (Some r) \<noteq> None"
proof (induction "length ws" arbitrary: ws r rule: less_induct)
  case less
  show ?case
  proof (cases "ws = []")
    case True
    then show ?thesis by (simp add: or_combine_Nil)
  next
    case False
    then have "length (drop (length (takeWhile (\<lambda>w. w \<noteq> ''or'') ws) + 1) ws) < length ws"
      by simp
    from less.hyps [OF this] False show ?thesis
      by (subst or_combine_step) simp_all
  qed
qed

lemma query_or_loop_first:
  assumes "budget h = Unlimited" "wf_heap h" "wf_index h idx" "p < fresh h" "p \<notin> ran idx"
    "i < length words"
  shows "\<exists>n. query_or_loop (Some idx) words i (Some p) False h =
     (Some (fresh h),
      h\<lparr>cells := (cells h)(p := None, fresh h \<mapsto> the (or_combine (postings h idx) (drop i words) None)),
        fresh := fresh h + (n + 1)\<rparr>)"
proof -
  define g where "g = takeWhile (\<lambda>w. w \<noteq> ''or'') (drop i words)"
  define grp where "grp = and_group (postings h idx) (filter (\<lambda>w. w \<noteq> ''and'') g)"
  define a where "a = fresh h"
  define e where "e = i + length g"
  define i' where "i' = (if e < length words \<and> words ! e = ''or'' then e + 1 else e)"
  define h1 where "h1 = h\<lparr>cells := (cells h)(a \<mapsto> grp), fresh := fresh h + 1\<rparr>"
  define h2 where "h2 = h\<lparr>cells := (cells h)(p := None, a \<mapsto> grp), fresh := fresh h + 1\<rparr>"
  have i_le: "i \<le> length words"
    using assms by simp
  have ea: "evaluate_andsequence h (Some idx) words i = (Some a, e, h1)"
    using assms i_le evaluate_andsequence_cell [of h idx i words]
    by (simp add: a_def e_def h1_def grp_def g_def)
  have pa: "p \<noteq> a"
    using assms by (simp add: a_def)
  have a_out: "a \<notin> ran idx"
    using fresh_not_indexed [OF assms(2,3), of a] by (simp add: a_def)
  have del: "counters_delete h1 (Some p) = h2"
    using pa by (simp add: counters_delete_def h1_def h2_def fun_upd_twist [of a p])
  have e_le: "e \<le> length words"
    unfolding e_def g_def by (rule group_end_cases(1) [OF i_le])
  have drop': "drop i' words = drop (length g + 1) (drop i words)"
    unfolding i'_def e_def g_def by (rule group_end_cases(3) [OF i_le])
  have i'_le: "i' \<le> length words"
    using e_le by (simp add: i'_def)
  have unfold: "query_or_loop (Some idx) words i (Some p) False h =
      query_or_loop (Some idx) words i' (Some a) True h2"
    using assms(6) by (subst query_or_loop.simps) (simp add: ea del i'_def Let_def)
  have agree: "cells h2 x = cells h x" if "x \<in> ran idx" for x
    using that assms(5) a_out by (auto simp: h2_def)
  have "\<exists>n. query_or_loop (Some idx) words i' (Some a) True h2 =
     (Some a, h2\<lparr>cells := (cells h2)(a \<mapsto> the (or_combine (postings h2 idx) (drop i' words) (Some grp))),
                fresh := fresh h2 + n\<rparr>)"
  proof (rule query_or_loop_merge)
    show "budget h2 = Unlimited" using assms by (simp add: h2_def)
    show "wf_heap h2" using assms(2) by (auto simp: wf_heap_def h2_def a_def)
    show "wf_index h2 idx" using agree assms(3) by (rule wf_index_agree)
    show "cells h2 a = Some grp" by (simp add: h2_def)
    show "wf_counters grp" unfolding grp_def using assms by (intro wf_counters_and_group)
    show "a \<notin> ran idx" by (rule a_out)
    show "i' \<le> length words" by (rule i'_le)
  qed
  then obtain n where
    rec: "query_or_loop (Some idx) words i' (Some a) True h2 =
     (Some a, h2\<lparr>cells := (cells h2)(a \<mapsto> the (or_combine (postings h2 idx) (drop i' words) (Some grp))),
                fresh := fresh h2 + n\<rparr>)"
    by blast
  have post: "postings h2 idx = postings h idx"
    using agree by (rule postings_agree)
  have comb: "or_combine (postings h idx) (drop i words) None =
      or_combine (postings h idx) (drop i' words) (Some grp)"
    using assms(6) by (subst or_combine_step) (simp_all add: drop' g_def grp_def)
  have "h2\<lparr>cells := (cells h2)(a \<mapsto> z), fresh := fresh h2 + n\<rparr> =
      h\<lparr>cells := (cells h)(p := None, a \<mapsto> z), fresh := fresh h + (n + 1)\<rparr>" for z
    by (simp add: h2_def)
  with unfold rec post comb show ?thesis
    unfolding a_def [symmetric] by (intro exI [of _ n]) (simp only:)
qed

lemma evaluate_query_cell:
  assumes "budget h = Unlimited" "wf_heap h" "wf_index h idx"
  shows "\<exists>n. evaluate_query h (Some idx) (Some words) =
       Returned (Some (if words = [] then fresh h else fresh h + 1),
                 h\<lparr>cells := (cells h)((if words = [] then fresh h else fresh h + 1) \<mapsto>
                              score_map (postings h idx) words),
                   fresh := fresh h + n\<rparr>) \<and>
     (if words = [] then fresh h else fresh h + 1) < fresh h + n"
proof -
  define p where "p = fresh h"
  define h1 where "h1 = h\<lparr>cells := (cells h)(p \<mapsto> []), fresh := fresh h + 1\<rparr>"
  have new: "counters_new h = (Some p, h1)"
    using assms by (simp add: counters_new_unlimited p_def h1_def)
  have p_out: "p \<notin> ran idx"
    using fresh_not_indexed [OF assms(2,3), of p] by (simp add: p_def)
  have p_none: "cells h p = None"
    using assms(2) by (simp add: wf_heap_def p_def)
  have eq: "evaluate_query h (Some idx) (Some words) =
      Returned (query_or_loop (Some idx) words 0 (Some p) False h1)"
    by (simp add: evaluate_query_def new)
  show ?thesis
  proof (cases "words = []")
    case True
    then have "query_or_loop (Some idx) words 0 (Some p) False h1 = (Some p, h1)"
      by (subst query_or_loop.simps) simp
    with True eq show ?thesis
      by (intro exI [of _ 1])
        (simp add: score_map_def or_combine_Nil h1_def p_def)
  next
    case False
    have agree: "cells h1 x = cells h x" if "x \<in> ran idx" for x
      using that p_out by (auto simp: h1_def)
    have "\<exists>n. query_or_loop (Some idx) words 0 (Some p) False h1 =
       (Some (fresh h1),
        h1\<lparr>cells := (cells h1)(p := None, fresh h1 \<mapsto> the (or_combine (postings h1 idx) (drop 0 words) None)),
           fresh := fresh h1 + (n + 1)\<rparr>)"
    proof (rule query_or_loop_first)
      show "budget h1 = Unlimited" using assms by (simp add: h1_def)
      show "wf_heap h1" using assms(2) by (auto simp: wf_heap_def h1_def p_def)
      show "wf_index h1 idx" using agree assms(3) by (rule wf_index_agree)
      show "p < fresh h1" by (simp add: h1_def p_def)
      show "p \<notin> ran idx" by (rule p_out)
      show "0 < length words" using False by simp
    qed
    then obtain n where
      rec: "query_or_loop (Some idx) words 0 (Some p) False h1 =
       (Some (fresh h1),
        h1\<lparr>cells := (cells h1)(p := None, fresh h1 \<mapsto> the (or_combine (postings h1 idx) (drop 0 words) None)),
           fresh := fresh h1 + (n + 1)\<rparr>)"
      by blast
    have post: "postings h1 idx = postings h idx"
      using agree by (rule postings_agree)
    have some: "or_combine (postings h idx) words None \<noteq> None"
      using False by (subst or_combine_step) (simp_all add: or_combine_Some)
    have "h1\<lparr>cells := (cells h1)(p := None, fresh h1 \<mapsto> z), fresh := fresh h1 + (n + 1)\<rparr> =
        h\<lparr>cells := (cells h)(Suc p \<mapsto> z), fresh := fresh h + (n + 2)\<rparr>" for z
      using p_none by (simp add: h1_def p_def fun_upd_idem)
    with eq rec post some False show ?thesis
      by (intro exI [of _ "n + 2"])
        (auto simp: score_map_def h1_def p_def)
  qed
qed

lemma andsequence_loop_word:
  "i < length words \<Longrightarrow> words ! i \<noteq> ''or'' \<Longrightarrow> words ! i \<noteq> ''and'' \<Longrightarrow>
     andsequence_loop idx words i result h =
       andsequence_loop idx words (i + 1) (fst (andsequence_word idx (words ! i) result h))
         (snd (andsequence_word idx (words ! i) result h))"
  by (cases result) (simp_all add: andsequence_loop_first andsequence_loop_next andsequence_word_def)

lemma andsequence_loop_implicit_and:
  assumes "a \<noteq> ''and''" "a \<noteq> ''or''" "b \<noteq> ''and''" "b \<noteq> ''or''"
  shows "\<exists>r' h'. andsequence_loop idx [a, b] 0 result h = (r', 2, h') \<and>
                 andsequence_loop idx [a, ''and'', b] 0 result h = (r', 3, h')"
proof -
  define r1 where "r1 = fst (andsequence_word idx a result h)"
  define h1 where "h1 = snd (andsequence_word idx a result h)"
  define r2 where "r2 = fst (andsequence_word idx b r1 h1)"
  define h2 where "h2 = snd (andsequence_word idx b r1 h1)"
  have "andsequence_loop idx [a, b] 0 result h = andsequence_loop idx [a, b] (0 + 1) r1 h1"
    unfolding r1_def h1_def using assms by (subst andsequence_loop_word) simp_all
  also have "\<dots> = andsequence_loop idx [a, b] (0 + 1 + 1) r2 h2"
    unfolding r2_def h2_def using assms by (subst andsequence_loop_word) simp_all
  also have "\<dots> = (r2, 2, h2)"
    by (subst andsequence_loop_stop) simp_all
  finally have 1: "andsequence_loop idx [a, b] 0 result h = (r2, 2, h2)" .
  have "andsequence_loop idx [a, ''and'', b] 0 result h =
      andsequence_loop idx [a, ''and'', b] (0 + 1) r1 h1"
    unfolding r1_def h1_def using assms by (subst andsequence_loop_word) simp_all
  also have "\<dots> = andsequence_loop idx [a, ''and'', b] (0 + 1 + 1) r1 h1"
    by (subst andsequence_loop_and) simp_all
  also have "\<dots> = andsequence_loop idx [a, ''and'', b] (0 + 1 + 1 + 1) r2 h2"
    unfolding r2_def h2_def using assms by (subst andsequence_loop_word) simp_all
  also have "\<dots> = (r2, 3, h2)"
    by (subst andsequence_loop_stop) simp_all
  finally have 2: "andsequence_loop idx [a, ''and'', b] 0 result h = (r2, 3, h2)" .
  from 1 2 show ?thesis by blast
qed

lemma evaluate_query_implicit_and:
  assumes "a \<noteq> ''and''" "a \<noteq> ''or''" "b \<noteq> ''and''" "b \<noteq> ''or''"
  shows "evaluate_query h idx (Some [a, b]) = evaluate_query h idx (Some [a, ''and'', b])"
proof -
  have loop: "query_or_loop idx [a, b] 0 orResult False h1 =
      query_or_loop idx [a, ''and'', b] 0 orResult False h1" for orResult h1
  proof -
    from andsequence_loop_implicit_and [OF assms, of idx None h1] obtain r' h' where
      l2: "andsequence_loop idx [a, b] 0 None h1 = (r', 2, h')" and
      l3: "andsequence_loop idx [a, ''and'', b] 0 None h1 = (r', 3, h')"
      by blast
    obtain r'' h'' where fin: "(if r' = None then counters_new h' else (r', h')) = (r'', h'')"
      by (cases "if r' = None then counters_new h' else (r', h')")
    have e2: "evaluate_andsequence h1 idx [a, b] 0 = (r'', 2, h'')"
      unfolding evaluate_andsequence_def l2 prod.case fin by (rule refl)
    have e3: "evaluate_andsequence h1 idx [a, ''and'', b] 0 = (r'', 3, h'')"
      unfolding evaluate_andsequence_def l3 prod.case fin by (rule refl)
    have "query_or_loop idx [a, b] 0 orResult False h1 =
        query_or_loop idx [a, b] 2 r'' True (counters_delete h'' orResult)"
      by (subst query_or_loop.simps) (simp add: e2)
    also have "\<dots> = (r'', counters_delete h'' orResult)"
      by (subst query_or_loop.simps) simp
    finally have q2: "query_or_loop idx [a, b] 0 orResult False h1 = (r'', counters_delete h'' orResult)" .
    have "query_or_loop idx [a, ''and'', b] 0 orResult False h1 =
        query_or_loop idx [a, ''and'', b] 3 r'' True (counters_delete h'' orResult)"
      by (subst query_or_loop.simps) (simp add: e3)
    also have "\<dots> = (r'', counters_delete h'' orResult)"
      by (subst query_or_loop.simps) simp
    finally show ?thesis
      using q2 by simp
  qed
  show ?thesis
    by (simp add: evaluate_query_def loop split: prod.splits option.splits)
qed

lemma and_group_snoc:
  "terms \<noteq> [] \<Longrightarrow> and_group look (terms @ [t]) = and_update (and_group look terms) (look t)"
  by (cases terms) (simp_all add: and_group_Cons)





lemma takeWhile_no_or: "''or'' \<notin> set g \<Longrightarrow> takeWhile (\<lambda>w. w \<noteq> ''or'') g = g"
  by (induction g) auto


lemma or_combine_single:
  "g \<noteq> [] \<Longrightarrow> ''or'' \<notin> set g \<Longrightarrow>
     or_combine look g res =
       Some (case res of
               None \<Rightarrow> and_group look (filter (\<lambda>w. w \<noteq> ''and'') g)
             | Some r \<Rightarrow> union_counts r (and_group look (filter (\<lambda>w. w \<noteq> ''and'') g)))"
  by (subst or_combine_step) (simp_all add: takeWhile_no_or or_combine_Nil split: option.splits)


lemma example_wf:
  "budget example_store = Unlimited" "wf_heap example_store" "wf_index example_store example_index"
  by (auto simp: example_store_def example_index_def wf_heap_def wf_index_def wf_counters_def
      split: if_splits)

lemma example_postings:
  "postings example_store example_index ''a'' = Some [(1, 2), (2, 1)]"
  "postings example_store example_index ''b'' = Some [(1, 3)]"
  by (simp_all add: postings_def example_store_def example_index_def)

lemma takeWhile_group:
  "''or'' \<notin> set g \<Longrightarrow> post = [] \<or> hd post = ''or'' \<Longrightarrow>
     takeWhile (\<lambda>w. w \<noteq> ''or'') (g @ post) = g"
proof (induction g)
  case Nil
  then show ?case by (cases post) auto
next
  case (Cons w g)
  then show ?case by auto
qed

text \<open>
  Claim C1. Take an AND-group whose words \<open>ws\<close> hold at least one term, and one more term
  \<open>t\<close>; the group starts anywhere in the array and ends at an \<open>or\<close> or at the end of
  the array. \<^verbatim>\<open>evaluate_andsequence\<close> on \<open>ws\<close> leaves the accumulator \<open>acc\<close>; on
  \<open>ws\<close> followed by \<open>t\<close> it leaves, in the same order and with the same documents, score 0 for every
  document of \<open>acc\<close> when \<open>t\<close> is not in the index, and otherwise the minimum of the
  document's score in \<open>acc\<close> and its count in the postings of \<open>t\<close>, where
  \<open>count_in\<close> is 0 for a document the postings do not hold.
\<close>
theorem evaluate_andsequence_next_term:
  assumes "budget h = Unlimited" "wf_heap h" "wf_index h idx"
    and "''or'' \<notin> set ws" "\<exists>w\<in>set ws. w \<noteq> ''and''" "t \<noteq> ''and''" "t \<noteq> ''or''"
    and "post = [] \<or> hd post = ''or''"
    and "acc = and_group (postings h idx) (filter (\<lambda>w. w \<noteq> ''and'') ws)"
  shows "evaluate_andsequence h (Some idx) (pre @ ws @ post) (length pre) =
       (Some (fresh h), length pre + length ws,
        h\<lparr>cells := (cells h)(fresh h \<mapsto> acc), fresh := fresh h + 1\<rparr>) \<and>
     evaluate_andsequence h (Some idx) (pre @ ws @ t # post) (length pre) =
       (Some (fresh h), length pre + length ws + 1,
        h\<lparr>cells := (cells h)(fresh h \<mapsto>
              (case postings h idx t of
                 None \<Rightarrow> map (\<lambda>(d, s). (d, 0)) acc
               | Some post \<Rightarrow> map (\<lambda>(d, s). (d, min s (count_in post d))) acc)),
          fresh := fresh h + 1\<rparr>)"
proof -
  have tw: "takeWhile (\<lambda>w. w \<noteq> ''or'') (drop (length pre) (pre @ ws @ post)) = ws"
    using assms(4,8) by (simp add: takeWhile_group)
  have "takeWhile (\<lambda>w. w \<noteq> ''or'') ((ws @ [t]) @ post) = ws @ [t]"
    using assms(4,7,8) by (intro takeWhile_group) simp_all
  then have tw': "takeWhile (\<lambda>w. w \<noteq> ''or'') (drop (length pre) (pre @ ws @ t # post)) = ws @ [t]"
    by simp
  have ne: "filter (\<lambda>w. w \<noteq> ''and'') ws \<noteq> []"
    using assms(5) by (simp add: filter_empty_conv)
  have upd: "(case postings h idx t of
                 None \<Rightarrow> map (\<lambda>(d, s). (d, 0)) acc
               | Some post \<Rightarrow> map (\<lambda>(d, s). (d, min s (count_in post d))) acc) =
      and_update acc (postings h idx t)"
    by (cases "postings h idx t") simp_all
  have "and_group (postings h idx) (filter (\<lambda>w. w \<noteq> ''and'') (ws @ [t])) =
      and_update acc (postings h idx t)"
    using assms(6,9) ne by (simp add: and_group_snoc)
  then show ?thesis
    using evaluate_andsequence_cell [OF assms(1-3), of "length pre" "pre @ ws @ post"]
      evaluate_andsequence_cell [OF assms(1-3), of "length pre" "pre @ ws @ t # post"]
    unfolding tw tw' upd by (simp add: assms(9))
qed

theorem evaluate_andsequence_next_term_witness:
  "evaluate_andsequence example_store (Some example_index) [''a'', ''b''] 0 =
     (Some 2, 2, example_store\<lparr>cells := (cells example_store)(2 \<mapsto> [(1, 2), (2, 0)]), fresh := 3\<rparr>) \<and>
   evaluate_andsequence example_store (Some example_index) [''b'', ''or'', ''a'', ''zzz'', ''or'', ''b''] 2 =
     (Some 2, 4, example_store\<lparr>cells := (cells example_store)(2 \<mapsto> [(1, 0), (2, 0)]), fresh := 3\<rparr>)"
proof -
  have acc: "[(1, 2), (2, 1)] = and_group (postings example_store example_index)
      (filter (\<lambda>w. w \<noteq> ''and'') [''a''])"
    by (simp add: and_group_def example_postings)
  have fr: "fresh example_store = 2"
    by (simp add: example_store_def)
  have z: "postings example_store example_index ''zzz'' = None"
    by (simp add: postings_def example_index_def)
  note b = evaluate_andsequence_next_term [OF example_wf, where ws = "[''a'']" and t = "''b''"
      and pre = "[]" and post = "[]", OF _ _ _ _ _ acc]
  note zzz = evaluate_andsequence_next_term [OF example_wf, where ws = "[''a'']" and t = "''zzz''"
      and pre = "[''b'', ''or'']" and post = "[''or'', ''b'']", OF _ _ _ _ _ acc]
  have "evaluate_andsequence example_store (Some example_index) [''a'', ''b''] 0 =
     (Some 2, 2, example_store\<lparr>cells := (cells example_store)(2 \<mapsto> [(1, 2), (2, 0)]), fresh := 3\<rparr>)"
    using b by (simp add: example_postings fr count_in_def)
  moreover have "evaluate_andsequence example_store (Some example_index)
      [''b'', ''or'', ''a'', ''zzz'', ''or'', ''b''] 2 =
     (Some 2, 4, example_store\<lparr>cells := (cells example_store)(2 \<mapsto> [(1, 0), (2, 0)]), fresh := 3\<rparr>)"
    using zzz by (simp add: z fr eval_nat_numeral)
  ultimately show ?thesis by (rule conjI)
qed

lemma wf_counters_or_combine:
  assumes "wf_index h idx"
  shows "(\<forall>r. res = Some r \<longrightarrow> wf_counters r) \<Longrightarrow>
     or_combine (postings h idx) ws res = Some m \<Longrightarrow> wf_counters m"
proof (induction "length ws" arbitrary: ws res rule: less_induct)
  case less
  show ?case
  proof (cases "ws = []")
    case True
    with less.prems show ?thesis by (simp add: or_combine_Nil)
  next
    case False
    define g where "g = and_group (postings h idx)
        (filter (\<lambda>w. w \<noteq> ''and'') (takeWhile (\<lambda>w. w \<noteq> ''or'') ws))"
    define res' where "res' = (case res of None \<Rightarrow> g | Some r \<Rightarrow> union_counts r g)"
    have g: "wf_counters g"
      unfolding g_def using assms by (rule wf_counters_and_group)
    have wf: "\<forall>r. Some res' = Some r \<longrightarrow> wf_counters r"
      using g less.prems(1) by (auto simp: res'_def wf_counters_union_counts split: option.splits)
    have len: "length (drop (length (takeWhile (\<lambda>w. w \<noteq> ''or'') ws) + 1) ws) < length ws"
      using False by simp
    have "or_combine (postings h idx) (drop (length (takeWhile (\<lambda>w. w \<noteq> ''or'') ws) + 1) ws)
        (Some res') = Some m"
      using less.prems(2) False unfolding res'_def g_def by (subst (asm) or_combine_step) simp_all
    from less.hyps [OF len wf this] show ?thesis .
  qed
qed

lemma wf_counters_score_map: "wf_index h idx \<Longrightarrow> wf_counters (score_map (postings h idx) ws)"
  using wf_counters_or_combine [of h idx None ws]
  by (auto simp: score_map_def wf_counters_Nil split: option.splits)

lemma score_map_single:
  "g \<noteq> [] \<Longrightarrow> ''or'' \<notin> set g \<Longrightarrow>
     score_map look g = and_group look (filter (\<lambda>w. w \<noteq> ''and'') g)"
  by (simp add: score_map_def or_combine_single)





text \<open>
  Claim C7. For two terms \<open>a\<close> and \<open>b\<close>, the queries \<open>a b\<close> and \<open>a and b\<close>
  evaluate to the same result in the same store, whatever the index, the store and the
  memory left.
\<close>
theorem implicit_and_equivalence:
  "\<not> is_operator (Some a) \<Longrightarrow> \<not> is_operator (Some b) \<Longrightarrow>
     evaluate_query h idx (Some [a, b]) = evaluate_query h idx (Some [a, ''and'', b])"
  by (rule evaluate_query_implicit_and) (simp_all add: is_operator.simps)

theorem implicit_and_equivalence_witness:
  "evaluate_query example_store (Some example_index) (Some [''a'', ''b'']) =
     evaluate_query example_store (Some example_index) (Some [''a'', ''and'', ''b'']) \<and>
   (\<exists>n. evaluate_query example_store (Some example_index) (Some [''a'', ''b'']) =
        Returned (Some 3, example_store\<lparr>cells := (cells example_store)(3 \<mapsto> [(1, 2), (2, 0)]),
                            fresh := 2 + n\<rparr>))"
proof -
  have ops: "\<not> is_operator (Some ''a'')" "\<not> is_operator (Some ''b'')"
    by (simp_all add: is_operator.simps)
  have fr: "fresh example_store = 2"
    by (simp add: example_store_def)
  have "score_map (postings example_store example_index) [''a'', ''b''] = [(1, 2), (2, 0)]"
    by (simp add: score_map_single and_group_def example_postings count_in_def)
  with evaluate_query_cell [OF example_wf, of "[''a'', ''b'']"]
  have "\<exists>n. evaluate_query example_store (Some example_index) (Some [''a'', ''b'']) =
        Returned (Some 3, example_store\<lparr>cells := (cells example_store)(3 \<mapsto> [(1, 2), (2, 0)]),
                            fresh := 2 + n\<rparr>)"
    unfolding fr by auto
  with implicit_and_equivalence [OF ops, of example_store "Some example_index"]
  show ?thesis by (rule conjI)
qed

subsection \<open>Ranking\<close>

text \<open>
  An item function that leaves the store alone folds over the nodes of the set.
\<close>

lemma iterate_nodes_pure:
  assumes f: "\<And>h' arg k c. f h' arg k c = (h', u arg k c)"
  shows "cells h r = Some ns \<Longrightarrow> distinct (map fst ns) \<Longrightarrow> set part \<subseteq> set ns \<Longrightarrow>
     iterate_nodes (Some r) f (map fst part) h arg = (h, foldl (\<lambda>a (k, c). u a k c) arg part)"
proof (induction part arbitrary: arg)
  case Nil
  then show ?case by simp
next
  case (Cons n part)
  obtain k c where n: "n = (k, c)" by (cases n)
  with Cons.prems have "counters_get h (Some r) k = c"
    by (simp add: counters_get_cell count_in_member)
  with Cons n show ?case
    by (simp add: f)
qed

lemma foldl_count_nonzero:
  "foldl (\<lambda>a (k, c). if c > (0::int) then a + 1 else a) (n::int) part =
     n + int (length (filter (\<lambda>(k, c). c > 0) part))"
  by (induction part arbitrary: n) (auto split: prod.splits)

lemma count_nonzero_iterate:
  assumes "cells h r = Some ns" "distinct (map fst ns)"
  shows "counters_iterate h (Some r) 0 count_nonzero = (h, int (length (filter (\<lambda>(k, c). c > 0) ns)))"
proof -
  have "iterate_nodes (Some r) count_nonzero (map fst ns) h 0 =
      (h, foldl (\<lambda>a (k, c). (\<lambda>n k c. if c > 0 then n + 1 else n) a k c) 0 ns)"
    by (rule iterate_nodes_pure [where u = "\<lambda>n k c. if c > 0 then n + 1 else n",
          OF _ assms(1,2) subset_refl])
      (simp add: count_nonzero_def)
  then show ?thesis
    using assms(1) by (simp add: counters_iterate_def foldl_count_nonzero)
qed

lemma foldl_collect_nonzero:
  "foldl (\<lambda>ca (k, c). if c \<le> 0 then ca
        else ca\<lparr>array := (array ca)[index ca := \<lparr>docID = k, score = c\<rparr>], index := index ca + 1\<rparr>)
      \<lparr>array = pre @ replicate (length (filter (\<lambda>(k, c). c > 0) part)) d0, index = length pre\<rparr> part =
   \<lparr>array = pre @ map (\<lambda>(k, c). \<lparr>docID = k, score = c\<rparr>) (filter (\<lambda>(k, c). c > 0) part),
     index = length pre + length (filter (\<lambda>(k, c). c > 0) part)\<rparr>"
proof (induction part arbitrary: pre)
  case Nil
  then show ?case by simp
next
  case (Cons n part)
  obtain k c where n: "n = (k, c)" by (cases n)
  show ?case
  proof (cases "c > 0")
    case False
    with Cons [of pre] n show ?thesis by simp
  next
    case True
    let ?m = "length (filter (\<lambda>(k, c). c > 0) part)"
    have "(pre @ replicate (Suc ?m) d0)[length pre := \<lparr>docID = k, score = c\<rparr>] =
        (pre @ [\<lparr>docID = k, score = c\<rparr>]) @ replicate ?m d0"
      by (simp add: list_update_append)
    with Cons [of "pre @ [\<lparr>docID = k, score = c\<rparr>]"] n True show ?thesis
      by simp
  qed
qed

lemma collect_nonzero_iterate:
  assumes "cells h r = Some ns" "distinct (map fst ns)"
    and "n = length (filter (\<lambda>(k, c). c > 0) ns)"
  shows "counters_iterate h (Some r) \<lparr>array = replicate n d0, index = 0\<rparr> collect_nonzero =
     (h, \<lparr>array = map (\<lambda>(k, c). \<lparr>docID = k, score = c\<rparr>) (filter (\<lambda>(k, c). c > 0) ns), index = n\<rparr>)"
proof -
  have "iterate_nodes (Some r) collect_nonzero (map fst ns) h \<lparr>array = replicate n d0, index = 0\<rparr> =
      (h, foldl (\<lambda>a (k, c). (\<lambda>ca k c. if c \<le> 0 then ca
        else ca\<lparr>array := (array ca)[index ca := \<lparr>docID = k, score = c\<rparr>], index := index ca + 1\<rparr>) a k c)
        \<lparr>array = replicate n d0, index = 0\<rparr> ns)"
    by (rule iterate_nodes_pure [where u = "\<lambda>ca k c. if c \<le> 0 then ca
        else ca\<lparr>array := (array ca)[index ca := \<lparr>docID = k, score = c\<rparr>], index := index ca + 1\<rparr>",
          OF _ assms(1,2) subset_refl])
      (simp add: collect_nonzero_def)
  then show ?thesis
    using assms(1) foldl_collect_nonzero [of "[]" ns d0]
    by (simp add: counters_iterate_def assms(3))
qed

lemma set_qsort_insert: "set (qsort_insert cmp x ys) = insert x (set ys)"
  by (induction ys) auto

lemma length_qsort_insert: "length (qsort_insert cmp x ys) = Suc (length ys)"
  by (induction ys) auto

lemma distinct_qsort_insert:
  "distinct (map f (qsort_insert cmp x ys)) = (f x \<notin> f ` set ys \<and> distinct (map f ys))"
  by (induction ys) (auto simp: set_qsort_insert)

lemma length_qsort: "length (qsort xs cmp) = length xs"
  by (induction xs) (simp_all add: qsort_def length_qsort_insert)

lemma set_qsort: "set (qsort xs cmp) = set xs"
  by (induction xs) (simp_all add: qsort_def set_qsort_insert)

lemma distinct_qsort: "distinct (map f (qsort xs cmp)) = distinct (map f xs)"
proof (induction xs)
  case Nil
  then show ?case by (simp add: qsort_def)
next
  case (Cons x xs)
  have "qsort (x # xs) cmp = qsort_insert cmp x (qsort xs cmp)"
    by (simp add: qsort_def)
  with Cons show ?case
    by (simp add: distinct_qsort_insert set_qsort)
qed

lemma sorted_qsort_insert:
  "sorted_wrt (\<lambda>a b. score b \<le> score a) ys \<Longrightarrow>
     sorted_wrt (\<lambda>a b. score b \<le> score a) (qsort_insert cmp_docscore_desc x ys)"
proof (induction ys)
  case Nil
  then show ?case by simp
next
  case (Cons y ys)
  then show ?case
    by (auto simp: cmp_docscore_desc_def set_qsort_insert)
qed

lemma sorted_qsort: "sorted_wrt (\<lambda>a b. score b \<le> score a) (qsort xs cmp_docscore_desc)"
  by (induction xs) (simp_all add: qsort_def sorted_qsort_insert)

lemma get_url_unlimited:
  "budget h = Unlimited \<Longrightarrow>
     get_url h (Some pages) d =
       Returned (if d \<le> 0 then None else map_option first_line (pages d), h)"
  by (simp add: get_url_def mem_malloc_def split: option.splits)

lemma print_loop_unlimited:
  "budget h = Unlimited \<Longrightarrow> n \<le> length docs \<Longrightarrow>
     print_loop (Some pages) docs n i out h =
       Returned (out @ map (printed_line pages) (drop i (take n docs)), h)"
proof (induction "n - i" arbitrary: i out)
  case 0
  then show ?case
    by (subst print_loop.simps) simp
next
  case (Suc m)
  then have lt: "i < n" by simp
  then have "drop i (take n docs) = docs ! i # drop (Suc i) (take n docs)"
    using Suc.prems by (simp add: Cons_nth_drop_Suc [symmetric])
  moreover have "print_loop (Some pages) docs n (Suc i) (out @ [printed_line pages (docs ! i)]) h =
      Returned ((out @ [printed_line pages (docs ! i)]) @
        map (printed_line pages) (drop (Suc i) (take n docs)), h)"
    using Suc by (intro Suc.hyps(1)) simp_all
  ultimately show ?case
    using lt Suc.prems
    by (subst print_loop.simps) (simp add: get_url_unlimited printed_line_def Let_def)
qed

lemma rank_and_print_spec:
  assumes "budget h = Unlimited" "cells h r = Some ns" "distinct (map fst ns)"
  shows "rank_and_print h (Some r) (Some pages) = Returned (printed_ranking pages ns, h)"
proof -
  define matches where "matches = filter (\<lambda>(k, c). c > 0) ns"
  define n where "n = int (length matches)"
  have cnt: "counters_iterate h (Some r) 0 count_nonzero = (h, n)"
    using count_nonzero_iterate [OF assms(2,3)] by (simp add: n_def matches_def)
  show ?thesis
  proof (cases "matches = []")
    case True
    then show ?thesis
      by (simp add: rank_and_print_def cnt n_def printed_ranking_def matches_def [symmetric])
  next
    case False
    have mm: "mem_malloc h = (True, h)"
      using assms(1) by (simp add: mem_malloc_def)
    have col: "counters_iterate h (Some r)
        \<lparr>array = replicate (length matches) \<lparr>docID = 0, score = 0\<rparr>, index = 0\<rparr>
        collect_nonzero =
      (h, \<lparr>array = map (\<lambda>(k, c). \<lparr>docID = k, score = c\<rparr>) matches, index = length matches\<rparr>)"
      unfolding matches_def
      by (rule collect_nonzero_iterate [OF assms(2,3)]) simp
    define docs where "docs = qsort (map (\<lambda>(k, c). \<lparr>docID = k, score = c\<rparr>) matches) cmp_docscore_desc"
    have len: "length docs = length matches"
      by (simp add: docs_def length_qsort)
    have pl: "print_loop (Some pages) docs (length matches) 0 [] h =
        Returned ([] @ map (printed_line pages) (drop 0 (take (length matches) docs)), h)"
      using assms(1) len by (intro print_loop_unlimited) simp_all
    from False have n0: "n \<noteq> 0"
      by (simp add: n_def)
    show ?thesis
      using False n0 len
      by (simp add: rank_and_print_def cnt mm col Let_def docs_def [symmetric] pl
          printed_ranking_def matches_def [symmetric] n_def)
  qed
qed

subsection \<open>One pass of the query loop\<close>

lemma query_step_spec:
  assumes "budget h = Unlimited" "wf_heap h" "wf_index h idx"
  shows "\<exists>n. query_step h (Some idx) (Some pages) line =
     Returned (answer (postings h idx) pages line, h\<lparr>fresh := fresh h + n\<rparr>)"
proof -
  have mm: "mem_malloc h = (True, h)"
    using assms(1) by (simp add: mem_malloc_def)
  define ws where "ws = spec_tokens line"
  show ?thesis
  proof (cases "find (\<lambda>c. \<not> isalpha c \<and> \<not> isspace c) line = None \<and>
      validate_tokens (Some ws) = None \<and> ws \<noteq> []")
    case False
    have "query_step h (Some idx) (Some pages) line =
        Returned (answer (postings h idx) pages line, h\<lparr>fresh := fresh h + 0\<rparr>)"
      using False
      by (auto simp: query_step_def tokenize_and_validate_spec mm answer_def ws_def
          split: option.splits)
    then show ?thesis ..
  next
    case True
    define a where "a = fresh h + 1"
    define sm where "sm = score_map (postings h idx) ws"
    from evaluate_query_cell [OF assms, of ws] True obtain n where
      ev: "evaluate_query h (Some idx) (Some ws) =
        Returned (Some a, h\<lparr>cells := (cells h)(a \<mapsto> sm), fresh := fresh h + n\<rparr>)"
      and a: "a < fresh h + n"
      by (auto simp: a_def sm_def)
    define h2 where "h2 = h\<lparr>cells := (cells h)(a \<mapsto> sm), fresh := fresh h + n\<rparr>"
    have "wf_counters sm"
      unfolding sm_def using assms(3) by (rule wf_counters_score_map)
    then have "distinct (map fst sm)"
      by (simp add: wf_counters_def)
    then have rk: "rank_and_print h2 (Some a) (Some pages) = Returned (printed_ranking pages sm, h2)"
      using assms(1) by (intro rank_and_print_spec) (simp_all add: h2_def)
    have "cells h a = None"
      using assms(2) by (simp add: wf_heap_def a_def)
    then have "(cells h)(a := None) = cells h"
      by (rule_tac ext) simp
    then have del: "counters_delete h2 (Some a) = h\<lparr>fresh := fresh h + n\<rparr>"
      by (simp add: counters_delete_def h2_def)
    have tok: "tokenize_and_validate h (Some line) =
        Returned (\<lparr>ok = True, words_out = Some ws, nwords_out = length ws, message = None\<rparr>, h)"
      using True by (simp add: tokenize_and_validate_spec mm ws_def)
    have ev': "evaluate_query h (Some idx) (Some ws) = Returned (Some a, h2)"
      by (simp add: ev h2_def)
    have ans: "answer (postings h idx) pages line = Answered ws (printed_ranking pages sm)"
      using True by (simp add: answer_def ws_def sm_def)
    have "query_step h (Some idx) (Some pages) line =
        Returned (answer (postings h idx) pages line, h\<lparr>fresh := fresh h + n\<rparr>)"
      using True by (simp add: query_step_def tok ev' rk del ans)
    then show ?thesis ..
  qed
qed

lemma wf_heap_fresh: "wf_heap h \<Longrightarrow> wf_heap (h\<lparr>fresh := fresh h + n\<rparr>)"
  by (simp add: wf_heap_def)

lemma ranker_store_wf:
  "budget (ranker_store ns) = Unlimited" "cells (ranker_store ns) 0 = Some ns"
  by (simp_all add: ranker_store_def)

lemma tie_wf:
  "budget tie_store = Unlimited" "wf_heap tie_store" "wf_index tie_store tie_index"
  by (auto simp: tie_store_def tie_index_def wf_heap_def wf_index_def wf_counters_def
      split: if_splits)

lemma evaluate_query_null_parameter:
  "budget h = Unlimited \<Longrightarrow> idx = None \<or> words = None \<Longrightarrow>
     evaluate_query h idx words =
       Returned (Some (fresh h), h\<lparr>cells := (cells h)(fresh h \<mapsto> []), fresh := fresh h + 1\<rparr>)"
  by (auto simp: evaluate_query_def counters_new_unlimited)

text \<open>
  Claim C4. \<^verbatim>\<open>rank_and_print\<close> on a counter set that holds each document once: when no
  document has a score above 0 it prints \<^verbatim>\<open>No documents match.\<close> and returns, whatever
  memory is left; otherwise, when its allocations succeed, it prints the count line and one
  line per document, the documents and scores printed are exactly the entries of the set
  with a score above 0, no document is printed twice and the count is the number of lines.
  In both cases the store is left as it was.
\<close>
theorem rank_and_print_positive_scores:
  assumes "cells h r = Some ns" "distinct (map fst ns)"
  shows "(filter (\<lambda>(d, s). s > 0) ns = [] \<longrightarrow>
       rank_and_print h (Some r) (Some pages) = Returned (NoDocumentsMatch, h)) \<and>
     (filter (\<lambda>(d, s). s > 0) ns \<noteq> [] \<and> budget h = Unlimited \<longrightarrow>
       (\<exists>lines. rank_and_print h (Some r) (Some pages) =
            Returned (Matches (int (length lines)) lines, h) \<and>
          set (map (\<lambda>(s, d, u). (d, s)) lines) = {(d, s). (d, s) \<in> set ns \<and> s > 0} \<and>
          distinct (map (\<lambda>(s, d, u). d) lines)))"
proof (intro conjI impI)
  assume "filter (\<lambda>(d, s). s > 0) ns = []"
  then show "rank_and_print h (Some r) (Some pages) = Returned (NoDocumentsMatch, h)"
    by (simp add: rank_and_print_def count_nonzero_iterate [OF assms])
next
  assume pos: "filter (\<lambda>(d, s). s > 0) ns \<noteq> [] \<and> budget h = Unlimited"
  define matches where "matches = filter (\<lambda>(d, s). s > 0) ns"
  define docs where
    "docs = qsort (map (\<lambda>(k, c). \<lparr>docID = k, score = c\<rparr>) matches) cmp_docscore_desc"
  define lines where "lines = map (printed_line pages) docs"
  have "rank_and_print h (Some r) (Some pages) = Returned (printed_ranking pages ns, h)"
    using pos assms by (intro rank_and_print_spec) simp_all
  moreover have "length docs = length matches"
    by (simp add: docs_def length_qsort)
  ultimately have 1: "rank_and_print h (Some r) (Some pages) =
      Returned (Matches (int (length lines)) lines, h)"
    using pos
    by (simp add: printed_ranking_def matches_def [symmetric] docs_def [symmetric]
        lines_def)
  have "map (\<lambda>(s, d, u). (d, s)) lines = map (\<lambda>x. (docID x, score x)) docs"
    by (simp add: lines_def printed_line_def)
  then have "set (map (\<lambda>(s, d, u). (d, s)) lines) = set matches"
    by (force simp: docs_def set_qsort)
  then have 2: "set (map (\<lambda>(s, d, u). (d, s)) lines) = {(d, s). (d, s) \<in> set ns \<and> s > 0}"
    by (auto simp: matches_def)
  have l: "map (\<lambda>(s, d, u). d) lines = map docID docs"
    by (simp add: lines_def printed_line_def)
  have m: "map docID (map (\<lambda>(k, c). \<lparr>docID = k, score = c\<rparr>) matches) = map fst matches"
    by auto
  have "distinct (map fst matches)"
    using assms(2) unfolding matches_def by (rule distinct_map_filter)
  then have 3: "distinct (map (\<lambda>(s, d, u). d) lines)"
    unfolding l docs_def distinct_qsort m .
  from 1 2 3 show "\<exists>lines. rank_and_print h (Some r) (Some pages) =
            Returned (Matches (int (length lines)) lines, h) \<and>
          set (map (\<lambda>(s, d, u). (d, s)) lines) = {(d, s). (d, s) \<in> set ns \<and> s > 0} \<and>
          distinct (map (\<lambda>(s, d, u). d) lines)"
    by blast
qed

theorem rank_and_print_positive_scores_witness:
  "rank_and_print (ranker_store [(1, 0), (2, 0)]) (Some 0) (Some no_pages) =
     Returned (NoDocumentsMatch, ranker_store [(1, 0), (2, 0)]) \<and>
   (\<exists>lines. rank_and_print (ranker_store [(1, 0), (2, 3), (3, 5)]) (Some 0) (Some no_pages) =
       Returned (Matches (int (length lines)) lines, ranker_store [(1, 0), (2, 3), (3, 5)]) \<and>
     set (map (\<lambda>(s, d, u). (d, s)) lines) = {(2, 3), (3, 5)} \<and>
     distinct (map (\<lambda>(s, d, u). d) lines))"
proof -
  have s: "{(d, s). (d, s) \<in> set [(1, 0), (2, 3), (3, 5::int)] \<and> s > 0} = {(2::int, 3), (3, 5)}"
    by auto
  note none = rank_and_print_positive_scores [where h = "ranker_store [(1, 0), (2, 0)]"
      and r = 0 and ns = "[(1, 0), (2, 0)]" and pages = no_pages, THEN conjunct1, THEN mp]
  note some = rank_and_print_positive_scores [where h = "ranker_store [(1, 0), (2, 3), (3, 5)]"
      and r = 0 and ns = "[(1, 0), (2, 3), (3, 5)]" and pages = no_pages, THEN conjunct2, THEN mp]
  have "rank_and_print (ranker_store [(1, 0), (2, 0)]) (Some 0) (Some no_pages) =
     Returned (NoDocumentsMatch, ranker_store [(1, 0), (2, 0)])"
    by (rule none) (simp_all add: ranker_store_wf)
  moreover have "\<exists>lines. rank_and_print (ranker_store [(1, 0), (2, 3), (3, 5)]) (Some 0) (Some no_pages) =
       Returned (Matches (int (length lines)) lines, ranker_store [(1, 0), (2, 3), (3, 5)]) \<and>
     set (map (\<lambda>(s, d, u). (d, s)) lines) = {(d, s). (d, s) \<in> set [(1, 0), (2, 3), (3, 5)] \<and> s > 0} \<and>
     distinct (map (\<lambda>(s, d, u). d) lines)"
    by (rule some) (simp_all add: ranker_store_wf)
  ultimately show ?thesis
    unfolding s by (rule conjI)
qed

text \<open>
  Claim C3. The comparison function \<^verbatim>\<open>cmp_docscore_desc\<close> compares the scores and nothing
  else: for two documents with the same score it returns 0 whichever comes first, so
  \<^verbatim>\<open>qsort\<close> is not told to put the smaller identifier first. With the index
  \<open>{a: {3: 1}, b: {2: 1}}\<close> the query \<^verbatim>\<open>a or b\<close> prints document 3 before document 2,
  and the query \<^verbatim>\<open>b or a\<close>, which has the same scores, prints them in the other order:
  among equal scores the order printed is the order the counter set is walked in.
\<close>
theorem rank_and_print_ties_unordered:
  "cmp_docscore_desc \<lparr>docID = 3, score = 1\<rparr> \<lparr>docID = 2, score = 1\<rparr> = 0 \<and>
   cmp_docscore_desc \<lparr>docID = 2, score = 1\<rparr> \<lparr>docID = 3, score = 1\<rparr> = 0 \<and>
   rank_and_print (ranker_store [(3, 1), (2, 1)]) (Some 0) (Some no_pages) =
     Returned (Matches 2 [(1, 3, None), (1, 2, None)], ranker_store [(3, 1), (2, 1)]) \<and>
   map_option fst (returned (query_step tie_store (Some tie_index) (Some no_pages) ''a or b'')) =
     Some (Answered [''a'', ''or'', ''b''] (Matches 2 [(1, 3, None), (1, 2, None)])) \<and>
   map_option fst (returned (query_step tie_store (Some tie_index) (Some no_pages) ''b or a'')) =
     Some (Answered [''b'', ''or'', ''a''] (Matches 2 [(1, 2, None), (1, 3, None)]))"
proof -
  have 1: "cmp_docscore_desc \<lparr>docID = 3, score = 1\<rparr> \<lparr>docID = 2, score = 1\<rparr> = 0"
    and 2: "cmp_docscore_desc \<lparr>docID = 2, score = 1\<rparr> \<lparr>docID = 3, score = 1\<rparr> = 0"
    by (simp_all add: cmp_docscore_desc_def)
  have "printed_ranking no_pages [(3, 1), (2, 1)] = Matches 2 [(1, 3, None), (1, 2, None)]"
    by code_simp
  then have 3: "rank_and_print (ranker_store [(3, 1), (2, 1)]) (Some 0) (Some no_pages) =
     Returned (Matches 2 [(1, 3, None), (1, 2, None)], ranker_store [(3, 1), (2, 1)])"
    using rank_and_print_spec [of "ranker_store [(3, 1), (2, 1)]" 0 "[(3, 1), (2, 1)]" no_pages]
    by (simp add: ranker_store_wf)
  have "answer (postings tie_store tie_index) no_pages ''a or b'' =
      Answered [''a'', ''or'', ''b''] (Matches 2 [(1, 3, None), (1, 2, None)])"
    by code_simp
  then have 4: "map_option fst (returned (query_step tie_store (Some tie_index) (Some no_pages) ''a or b'')) =
     Some (Answered [''a'', ''or'', ''b''] (Matches 2 [(1, 3, None), (1, 2, None)]))"
    using query_step_spec [OF tie_wf, of no_pages "''a or b''"]
    by (auto simp: returned_def)
  have "answer (postings tie_store tie_index) no_pages ''b or a'' =
      Answered [''b'', ''or'', ''a''] (Matches 2 [(1, 2, None), (1, 3, None)])"
    by code_simp
  then have 5: "map_option fst (returned (query_step tie_store (Some tie_index) (Some no_pages) ''b or a'')) =
     Some (Answered [''b'', ''or'', ''a''] (Matches 2 [(1, 2, None), (1, 3, None)]))"
    using query_step_spec [OF tie_wf, of no_pages "''b or a''"]
    by (auto simp: returned_def)
  from 1 2 3 4 5 show ?thesis by (intro conjI)
qed

lemma big_wf:
  "budget big_store = Unlimited" "wf_heap big_store" "wf_index big_store big_index"
  by (auto simp: big_store_def big_index_def wf_heap_def wf_index_def wf_counters_def
      split: if_splits)

lemma first_line_short: "length l \<le> 1023 \<Longrightarrow> NUL \<notin> set l \<Longrightarrow> first_line l = l"
  by (auto simp: first_line_def cstr_def)

text \<open>
  Claim C8. What the loop prints for a line is a function of the line, of the postings the
  index holds and of the page directory: \<open>answer\<close>. It does not depend on where the
  counter sets lie in memory or on how many queries were answered before, and a query
  leaves the postings as they were. So the same line read twice is answered twice with the
  same block, and two stores that hold the same postings give the same block. The block is
  the one the program prints: its scores are sums taken in \<^verbatim>\<open>int\<close>, and its URLs are
  the part of the page's first line that fits the buffer of \<^verbatim>\<open>get_url\<close>.
\<close>
theorem query_step_deterministic:
  assumes "budget h = Unlimited" "wf_heap h" "wf_index h idx"
    and "budget h' = Unlimited" "wf_heap h'" "wf_index h' idx'"
    and "postings h' idx' = postings h idx"
  shows "\<exists>n n' m.
     query_step h (Some idx) (Some pages) line =
       Returned (answer (postings h idx) pages line, h\<lparr>fresh := fresh h + n\<rparr>) \<and>
     query_step h' (Some idx') (Some pages) line =
       Returned (answer (postings h idx) pages line, h'\<lparr>fresh := fresh h' + n'\<rparr>) \<and>
     query_lines h (Some idx) (Some pages) [line, line] =
       Returned ([answer (postings h idx) pages line, answer (postings h idx) pages line],
                 h\<lparr>fresh := fresh h + m\<rparr>) \<and>
     postings (h\<lparr>fresh := fresh h + m\<rparr>) idx = postings h idx"
proof -
  from query_step_spec [OF assms(1-3), of pages line] obtain n where
    1: "query_step h (Some idx) (Some pages) line =
       Returned (answer (postings h idx) pages line, h\<lparr>fresh := fresh h + n\<rparr>)" ..
  from query_step_spec [OF assms(4-6), of pages line] obtain n' where
    2: "query_step h' (Some idx') (Some pages) line =
       Returned (answer (postings h idx) pages line, h'\<lparr>fresh := fresh h' + n'\<rparr>)"
    unfolding assms(7) ..
  define h1 where "h1 = h\<lparr>fresh := fresh h + n\<rparr>"
  have p1: "postings h1 idx = postings h idx"
    by (rule postings_cong) (simp add: h1_def)
  have "budget h1 = Unlimited" "wf_heap h1" "wf_index h1 idx"
    using assms(1-3) by (simp_all add: h1_def wf_heap_def wf_index_def)
  from query_step_spec [OF this, of pages line] obtain k where
    3: "query_step h1 (Some idx) (Some pages) line =
       Returned (answer (postings h idx) pages line, h1\<lparr>fresh := fresh h1 + k\<rparr>)"
    unfolding p1 ..
  have h2: "h1\<lparr>fresh := fresh h1 + k\<rparr> = h\<lparr>fresh := fresh h + (n + k)\<rparr>"
    by (simp add: h1_def)
  have 4: "query_lines h (Some idx) (Some pages) [line, line] =
       Returned ([answer (postings h idx) pages line, answer (postings h idx) pages line],
                 h\<lparr>fresh := fresh h + (n + k)\<rparr>)"
    using 1 3 by (simp add: h1_def [symmetric] h2)
  have 5: "postings (h\<lparr>fresh := fresh h + (n + k)\<rparr>) idx = postings h idx"
    by (rule postings_cong) simp
  from 1 2 4 5 show ?thesis by blast
qed

theorem query_step_deterministic_witness:
  "\<exists>n n' m k.
     query_step example_store (Some example_index) (Some no_pages) ''a or b'' =
       Returned (Answered [''a'', ''or'', ''b''] (Matches 2 [(5, 1, None), (1, 2, None)]),
                 example_store\<lparr>fresh := fresh example_store + n\<rparr>) \<and>
     query_step (example_store\<lparr>fresh := 7\<rparr>) (Some example_index) (Some no_pages) ''a or b'' =
       Returned (Answered [''a'', ''or'', ''b''] (Matches 2 [(5, 1, None), (1, 2, None)]),
                 example_store\<lparr>fresh := 7 + n'\<rparr>) \<and>
     query_lines example_store (Some example_index) (Some no_pages) [''a or b'', ''a or b''] =
       Returned ([Answered [''a'', ''or'', ''b''] (Matches 2 [(5, 1, None), (1, 2, None)]),
                  Answered [''a'', ''or'', ''b''] (Matches 2 [(5, 1, None), (1, 2, None)])],
                 example_store\<lparr>fresh := fresh example_store + m\<rparr>) \<and>
     query_lines big_store (Some big_index) (Some long_pages) [''a or a'', ''a or a''] =
       Returned ([Answered [''a'', ''or'', ''a'']
                    (Matches 2 [(2147483647, 1, Some (replicate 1023 CHR ''x'')), (2, 2, None)]),
                  Answered [''a'', ''or'', ''a'']
                    (Matches 2 [(2147483647, 1, Some (replicate 1023 CHR ''x'')), (2, 2, None)])],
                 big_store\<lparr>fresh := fresh big_store + k\<rparr>)"
proof -
  have a: "answer (postings example_store example_index) no_pages ''a or b'' =
      Answered [''a'', ''or'', ''b''] (Matches 2 [(5, 1, None), (1, 2, None)])"
    by code_simp
  have r: "replicate 1023 CHR ''x'' = first_line (replicate 2000 CHR ''x'')"
    by (simp add: first_line_def cstr_def NUL_def)
  have "answer (postings big_store big_index) (\<lambda>d. if d = 1 then Some l else None) ''a or a'' =
      Answered [''a'', ''or'', ''a''] (Matches 2 [(2147483647, 1, Some (first_line l)), (2, 2, None)])" for l
    by code_simp
  then have b: "answer (postings big_store big_index) long_pages ''a or a'' =
      Answered [''a'', ''or'', ''a'']
        (Matches 2 [(2147483647, 1, Some (replicate 1023 CHR ''x'')), (2, 2, None)])"
    unfolding long_pages_def r .
  have wf: "budget (example_store\<lparr>fresh := 7\<rparr>) = Unlimited" "wf_heap (example_store\<lparr>fresh := 7\<rparr>)"
    "wf_index (example_store\<lparr>fresh := 7\<rparr>) example_index"
    using example_wf by (auto simp: wf_heap_def wf_index_def example_store_def)
  have p: "postings (example_store\<lparr>fresh := 7\<rparr>) example_index = postings example_store example_index"
    by (rule postings_cong) simp
  from query_step_deterministic [OF example_wf wf p, of no_pages "''a or b''"]
  obtain n n' m where 1: "query_step example_store (Some example_index) (Some no_pages) ''a or b'' =
       Returned (Answered [''a'', ''or'', ''b''] (Matches 2 [(5, 1, None), (1, 2, None)]),
                 example_store\<lparr>fresh := fresh example_store + n\<rparr>) \<and>
     query_step (example_store\<lparr>fresh := 7\<rparr>) (Some example_index) (Some no_pages) ''a or b'' =
       Returned (Answered [''a'', ''or'', ''b''] (Matches 2 [(5, 1, None), (1, 2, None)]),
                 example_store\<lparr>fresh := 7 + n'\<rparr>) \<and>
     query_lines example_store (Some example_index) (Some no_pages) [''a or b'', ''a or b''] =
       Returned ([Answered [''a'', ''or'', ''b''] (Matches 2 [(5, 1, None), (1, 2, None)]),
                  Answered [''a'', ''or'', ''b''] (Matches 2 [(5, 1, None), (1, 2, None)])],
                 example_store\<lparr>fresh := fresh example_store + m\<rparr>)"
    unfolding a by auto
  from query_step_deterministic [OF big_wf big_wf refl, of long_pages "''a or a''"]
  obtain k where 2: "query_lines big_store (Some big_index) (Some long_pages) [''a or a'', ''a or a''] =
       Returned ([Answered [''a'', ''or'', ''a'']
                    (Matches 2 [(2147483647, 1, Some (replicate 1023 CHR ''x'')), (2, 2, None)]),
                  Answered [''a'', ''or'', ''a'']
                    (Matches 2 [(2147483647, 1, Some (replicate 1023 CHR ''x'')), (2, 2, None)])],
                 big_store\<lparr>fresh := fresh big_store + k\<rparr>)"
    unfolding b by auto
  from 1 2 show ?thesis by blast
qed

text \<open>
  Claim C10. When memory runs out, \<^verbatim>\<open>evaluate_query\<close> returns NULL. With a NULL index
  and no memory left it returns what \<^verbatim>\<open>counters_new\<close> returns, which is NULL. With a
  valid index, the word \<^verbatim>\<open>a\<close> and memory for one allocation, the first
  \<^verbatim>\<open>counters_new\<close> succeeds, the two in \<^verbatim>\<open>evaluate_andsequence\<close> fail and are not
  checked, and the NULL they leave is returned; the loop then hands it to
  \<^verbatim>\<open>rank_and_print\<close>, which reports a NULL parameter, and goes on to the next line.
\<close>
theorem evaluate_query_returns_null:
  "map_option fst (returned (evaluate_query (example_store\<lparr>budget := Remaining 0\<rparr>)
      None (Some [''a'']))) = Some None \<and>
   map_option fst (returned (evaluate_query (example_store\<lparr>budget := Remaining 1\<rparr>)
      (Some example_index) (Some [''a'']))) = Some None \<and>
   map_option fst (returned (query_step (example_store\<lparr>budget := Remaining 2\<rparr>)
      (Some example_index) (Some no_pages) ''a'')) = Some (Answered [''a''] GotNullParameter)"
  by code_simp

end
